theory Spec2Isabelle
  imports Complex_Main "HOL-Library.Word" "HOL-Library.Multiset" "HOL-Library.Signed_Division"
begin

unbundle bit_operations_syntax

section \<open>Machine model\<close>

text \<open>
  The runtime (\<^verbatim>\<open>vendor/gioui.org/cpu/runtime.c\<close>) is built for Linux on amd64 and
  arm64 (LP64): \<^verbatim>\<open>int\<close> is 32 bits and signed, \<^verbatim>\<open>unsigned int\<close> and
  \<^verbatim>\<open>uint32_t\<close> are \<open>32 word\<close>, \<^verbatim>\<open>size_t\<close> is \<open>64 word\<close>, and \<^verbatim>\<open>bool\<close>
  is \<^verbatim>\<open>unsigned char\<close> (abi.h), an \<open>8 word\<close> tested against zero.

  A C \<^verbatim>\<open>int\<close> is a HOL \<open>int\<close>; every signed operation checks its result and is
  the error \<open>SignedOverflow\<close> when it leaves the 32-bit range (undefined behaviour in C).
  Unsigned arithmetic wraps, as \<open>word\<close> arithmetic does. Conversions follow GCC and
  Clang: to an unsigned type by \<open>word_of_int\<close>, from a wider or unsigned type to
  \<^verbatim>\<open>int\<close> by reduction modulo \<open>2 ^ 32\<close> (\<open>sint\<close> of the low 32 bits).

  Pointers are addresses (\<open>nat\<close>, \<open>0\<close> is \<^verbatim>\<open>NULL\<close>). Every abort, assertion failure
  and undefined behaviour of the source is a value of \<open>error\<close>.
\<close>

datatype error =
  AssertFailed
  | SignedOverflow
  | DivisionByZero
  | NullPointer
  | OutOfBounds
  | InvalidFree

type_synonym ptr = nat

abbreviation (input) NULL :: ptr where
  "NULL \<equiv> 0"

definition INT_MIN :: int where
  "INT_MIN = - (2 ^ 31)"

definition INT_MAX :: int where
  "INT_MAX = 2 ^ 31 - 1"

definition in_int :: "int \<Rightarrow> bool" where
  "in_int v \<longleftrightarrow> INT_MIN \<le> v \<and> v \<le> INT_MAX"

definition int_result :: "int \<Rightarrow> error + int" where
  "int_result v = (if in_int v then Inr v else Inl SignedOverflow)"

definition int_mul :: "int \<Rightarrow> int \<Rightarrow> error + int" where
  "int_mul a b = int_result (a * b)"

definition int_add :: "int \<Rightarrow> int \<Rightarrow> error + int" where
  "int_add a b = int_result (a + b)"

definition int_sub :: "int \<Rightarrow> int \<Rightarrow> error + int" where
  "int_sub a b = int_result (a - b)"

text \<open>C division truncates towards zero and traps on a zero divisor.\<close>

definition int_div :: "int \<Rightarrow> int \<Rightarrow> error + int" where
  "int_div a b = (if b = 0 then Inl DivisionByZero else int_result (a sdiv b))"

definition size_t_of_int :: "int \<Rightarrow> 64 word" where
  "size_t_of_int v = word_of_int v"

definition int_of_size_t :: "64 word \<Rightarrow> int" where
  "int_of_size_t s = sint (ucast s :: 32 word)"

definition uint_of_int :: "int \<Rightarrow> 32 word" where
  "uint_of_int v = word_of_int v"

definition int_of_uint :: "32 word \<Rightarrow> int" where
  "int_of_uint u = sint u"

subsection \<open>The C heap\<close>

text \<open>
  The allocator is the C library's, not the repository's. It is modelled as a bump
  allocator over a bounded address space: \<open>blocks\<close> maps the address of every live
  allocation to its bytes, \<open>brk\<close> is the first address never handed out, \<open>limit\<close>
  the end of the address space. \<^verbatim>\<open>posix_memalign\<close> returns 0 and an address that is a
  multiple of the alignment, or \<^verbatim>\<open>ENOMEM\<close> (12) when the block does not fit. Fresh
  memory is uninitialised in C; the model fills it with zero bytes.
\<close>

record heap =
  blocks :: "ptr \<rightharpoonup> 8 word list"
  brk :: nat
  limit :: nat

definition posix_memalign :: "heap \<Rightarrow> nat \<Rightarrow> nat \<Rightarrow> int \<times> ptr \<times> heap" where
  "posix_memalign h alignment n =
     (let p = ((max (brk h) 1 + alignment - 1) div alignment) * alignment
      in if limit h < p + n then (12, NULL, h)
         else (0, p, h\<lparr>blocks := (blocks h)(p \<mapsto> replicate n 0), brk := p + max n 1\<rparr>))"

text \<open>\<^verbatim>\<open>malloc_align\<close> (runtime.c:50): \<^verbatim>\<open>assert(ret == 0)\<close> aborts the process.\<close>

definition malloc_align :: "heap \<Rightarrow> nat \<Rightarrow> nat \<Rightarrow> error + (ptr \<times> heap)" where
  "malloc_align h alignment n =
     (case posix_memalign h alignment n of
        (ret, p, h') \<Rightarrow> if ret = 0 then Inr (p, h') else Inl AssertFailed)"

text \<open>\<^verbatim>\<open>free\<close> of an address that is not a live allocation is undefined behaviour.\<close>

definition c_free :: "heap \<Rightarrow> ptr \<Rightarrow> error + heap" where
  "c_free h p =
     (if p \<in> dom (blocks h) then Inr (h\<lparr>blocks := (blocks h)(p := None)\<rparr>)
      else Inl InvalidFree)"

text \<open>
  \<^verbatim>\<open>memcpy(dst, src, n)\<close> from caller-owned bytes \<open>src\<close> into the heap block at \<open>dst\<close>.
  A copy of zero bytes does nothing (as in glibc and musl); otherwise a null destination,
  a destination that is no live block, or a range past either buffer is an error.
\<close>

definition c_memcpy :: "heap \<Rightarrow> ptr \<Rightarrow> 8 word list \<Rightarrow> nat \<Rightarrow> error + heap" where
  "c_memcpy h dst src n =
     (if n = 0 then Inr h
      else if dst = NULL then Inl NullPointer
      else case blocks h dst of
             None \<Rightarrow> Inl OutOfBounds
           | Some old \<Rightarrow>
               if length old < n \<or> length src < n then Inl OutOfBounds
               else Inr (h\<lparr>blocks := (blocks h)(dst \<mapsto> take n src @ drop n old)\<rparr>))"

text \<open>Constants of abi.h.\<close>

definition REQUIRED_MEMORY_ALIGNMENT :: nat where
  "REQUIRED_MEMORY_ALIGNMENT = 16"

definition SIMD_WIDTH :: int where
  "SIMD_WIDTH = 4"

section \<open>Image allocation\<close>

record image_descriptor =
  ptr :: ptr
  width :: int
  height :: int
  depth :: int
  row_pitch_bytes :: int
  slice_pitch_bytes :: int
  sample_pitch_bytes :: int
  sample_count :: int
  size_in_bytes :: int
  stencil_ptr :: ptr
  stencil_row_pitch_bytes :: int
  stencil_slice_pitch_bytes :: int
  stencil_sample_pitch_bytes :: int
  memoryOwner :: ptr

text \<open>
  \<^verbatim>\<open>alloc_image_rgba\<close> (runtime.c:149). \<^verbatim>\<open>width*height*4\<close> is computed in \<^verbatim>\<open>int\<close> and
  converted to \<^verbatim>\<open>size_t\<close>; the rounding is done in \<^verbatim>\<open>size_t\<close>, where \<^verbatim>\<open>~(16 - 1)\<close> is
  the \<^verbatim>\<open>int\<close> \<open>-16\<close> converted; the three size fields of the descriptor are \<^verbatim>\<open>int\<close>
  again.
\<close>

definition alloc_image_rgba :: "heap \<Rightarrow> int \<Rightarrow> int \<Rightarrow> error + (image_descriptor \<times> heap)" where
  "alloc_image_rgba h w ht =
     (case int_mul w ht of Inl e \<Rightarrow> Inl e | Inr wh \<Rightarrow>
      case int_mul wh 4 of Inl e \<Rightarrow> Inl e | Inr whc \<Rightarrow>
      let size0 = size_t_of_int whc;
          sz = (size0 + 16 - 1) AND size_t_of_int (NOT (16 - 1))
      in case malloc_align h REQUIRED_MEMORY_ALIGNMENT (unat sz) of Inl e \<Rightarrow> Inl e
         | Inr (storage, h') \<Rightarrow>
      case int_mul w 4 of Inl e \<Rightarrow> Inl e | Inr row \<Rightarrow>
        Inr (\<lparr>ptr = storage, width = w, height = ht, depth = 1,
              row_pitch_bytes = row,
              slice_pitch_bytes = int_of_size_t sz,
              sample_pitch_bytes = int_of_size_t sz,
              sample_count = 1,
              size_in_bytes = int_of_size_t sz,
              stencil_ptr = NULL, stencil_row_pitch_bytes = 0,
              stencil_slice_pitch_bytes = 0, stencil_sample_pitch_bytes = 0,
              memoryOwner = NULL\<rparr>, h'))"

text \<open>The size the specification describes: rounded up to the next multiple of 16.\<close>

definition round_up16 :: "int \<Rightarrow> int" where
  "round_up16 n = ((n + 15) div 16) * 16"

section \<open>The coroutine queue\<close>

text \<open>
  \<^verbatim>\<open>struct coroutines\<close> (runtime.c:19): a circular buffer of coroutine handles.
  \<open>routines\<close> is the allocated array (empty while the pointer is \<^verbatim>\<open>NULL\<close>), \<open>endq\<close>
  is the source's field \<^verbatim>\<open>end\<close>. A handle is an opaque pointer.
\<close>

type_synonym coroutine = ptr

record coroutines =
  routines :: "coroutine list"
  start :: "32 word"
  endq :: "32 word"
  cap :: "32 word"

text \<open>
  \<^verbatim>\<open>realloc\<close> of the array to \<open>n\<close> elements keeps the old elements that fit; the new ones
  are uninitialised (zero in the model). The queue's array is kept in the record, not in
  \<open>heap\<close>: nothing else points into it, and its \<^verbatim>\<open>realloc\<close> is taken to succeed (the
  source does not check it).
\<close>

definition realloc_array :: "coroutine list \<Rightarrow> nat \<Rightarrow> coroutine list" where
  "realloc_array buf n = take n buf @ replicate (n - length buf) 0"

text \<open>\<^verbatim>\<open>memmove(&a[dst], &a[src], n * sizeof(coroutine))\<close> inside one array.\<close>

definition memmove_array :: "coroutine list \<Rightarrow> nat \<Rightarrow> nat \<Rightarrow> nat \<Rightarrow> error + coroutine list" where
  "memmove_array buf dst src n =
     (if n = 0 then Inr buf
      else if length buf < dst + n \<or> length buf < src + n then Inl OutOfBounds
      else Inr (take dst buf @ take n (drop src buf) @ drop (dst + n) buf))"

text \<open>
  The body of \<^verbatim>\<open>if (next == routines->start)\<close> in \<^verbatim>\<open>coroutines_push\<close> (runtime.c:73-88):
  the grown queue and the new \<^verbatim>\<open>next\<close>. \<^verbatim>\<open>newcap\<close> is at least 10, so the modulus is
  defined.
\<close>

definition coroutines_grow :: "coroutines \<Rightarrow> error + (coroutines \<times> 32 word)" where
  "coroutines_grow q =
     (let newcap0 = cap q * 2;
          newcap = (if newcap0 < 10 then 10 else newcap0);
          buf = realloc_array (routines q) (unat newcap)
      in case (if endq q < start q then
                 (let nelems = endq q; mx = newcap - cap q
                  in if nelems \<le> mx then
                       (case memmove_array buf (unat (cap q)) 0 (unat nelems) of
                          Inl e \<Rightarrow> Inl e
                        | Inr buf' \<Rightarrow> Inr (buf', endq q + cap q))
                     else Inl AssertFailed)
               else Inr (buf, endq q)) of
           Inl e \<Rightarrow> Inl e
         | Inr (buf1, end1) \<Rightarrow>
             Inr (q\<lparr>routines := buf1, endq := end1, cap := newcap\<rparr>, (end1 + 1) mod newcap))"

text \<open>\<^verbatim>\<open>coroutines_push\<close> (runtime.c:67).\<close>

definition coroutines_push :: "coroutines \<Rightarrow> coroutine \<Rightarrow> error + coroutines" where
  "coroutines_push q r =
     (let next0 = endq q + 1;
          next1 = (if cap q \<le> next0 then 0 else next0)
      in case (if next1 = start q then coroutines_grow q else Inr (q, next1)) of
           Inl e \<Rightarrow> Inl e
         | Inr (q1, next2) \<Rightarrow>
             if unat (endq q1) < length (routines q1)
             then Inr (q1\<lparr>routines := (routines q1)[unat (endq q1) := r], endq := next2\<rparr>)
             else Inl OutOfBounds)"

text \<open>
  \<^verbatim>\<open>coroutines_pop\<close> (runtime.c:94): \<open>None\<close> is the return value 0, \<open>Some r\<close> the return
  value 1 with \<open>r\<close> stored through the out-parameter.
\<close>

definition coroutines_pop :: "coroutines \<Rightarrow> error + (coroutine option \<times> coroutines)" where
  "coroutines_pop q =
     (if start q = endq q then Inr (None, q)
      else if length (routines q) \<le> unat (start q) then Inl OutOfBounds
      else if cap q = 0 then Inl DivisionByZero
      else Inr (Some (routines q ! unat (start q)), q\<lparr>start := (start q + 1) mod cap q\<rparr>))"

text \<open>The zero-initialised queue of \<^verbatim>\<open>alloc_thread_context\<close> and \<^verbatim>\<open>coroutines_free\<close>.\<close>

definition coroutines_zero :: coroutines where
  "coroutines_zero = \<lparr>routines = [], start = 0, endq = 0, cap = 0\<rparr>"

subsection \<open>Abstraction and invariant of the queue\<close>

text \<open>The handles a queue holds, oldest first.\<close>

definition q_list :: "coroutines \<Rightarrow> coroutine list" where
  "q_list q =
     (if start q \<le> endq q
      then take (unat (endq q) - unat (start q)) (drop (unat (start q)) (routines q))
      else drop (unat (start q)) (routines q) @ take (unat (endq q)) (routines q))"

text \<open>
  The representation invariant: the array has \<open>cap\<close> elements, and \<open>start\<close> and \<open>endq\<close>
  are below \<open>cap\<close> (both 0 while nothing is allocated).
\<close>

definition q_inv :: "coroutines \<Rightarrow> bool" where
  "q_inv q \<longleftrightarrow>
     length (routines q) = unat (cap q) \<and>
     (if cap q = 0 then start q = 0 \<and> endq q = 0 else start q < cap q \<and> endq q < cap q)"

text \<open>
  The capacities a queue grown from the zero queue can have without \<^verbatim>\<open>cap * 2\<close>
  wrapping around: 0, 10, 20, ..., \<open>10 * 2 ^ 28\<close>.
\<close>

definition q_caps :: "32 word list" where
  "q_caps = 0 # map (\<lambda>j. 10 * 2 ^ j) [0..<29]"

definition cap_ok :: "coroutines \<Rightarrow> bool" where
  "cap_ok q \<longleftrightarrow> cap q \<in> set q_caps"

text \<open>The largest number of handles such a queue can take a push at: \<open>10 * 2 ^ 28 - 2\<close>.\<close>

definition Q_MAX :: nat where
  "Q_MAX = 2684354558"

text \<open>Sequences of queue operations, run on the code and on a list.\<close>

datatype q_op = Push coroutine | Pop

fun run_ops :: "coroutines \<Rightarrow> q_op list \<Rightarrow> error + (coroutines \<times> coroutine option list)" where
  "run_ops q [] = Inr (q, [])"
| "run_ops q (Push r # ops) =
     (case coroutines_push q r of Inl e \<Rightarrow> Inl e | Inr q' \<Rightarrow> run_ops q' ops)"
| "run_ops q (Pop # ops) =
     (case coroutines_pop q of
        Inl e \<Rightarrow> Inl e
      | Inr (out, q') \<Rightarrow>
          (case run_ops q' ops of Inl e \<Rightarrow> Inl e | Inr (q'', outs) \<Rightarrow> Inr (q'', out # outs)))"

text \<open>
  The abstract FIFO of the specification: push appends, pop removes and returns the
  oldest handle, or signals empty.
\<close>

fun fifo_run :: "coroutine list \<Rightarrow> q_op list \<Rightarrow> coroutine list \<times> coroutine option list" where
  "fifo_run xs [] = (xs, [])"
| "fifo_run xs (Push r # ops) = fifo_run (xs @ [r]) ops"
| "fifo_run [] (Pop # ops) = (case fifo_run [] ops of (ys, outs) \<Rightarrow> (ys, None # outs))"
| "fifo_run (x # xs) (Pop # ops) = (case fifo_run xs ops of (ys, outs) \<Rightarrow> (ys, Some x # outs))"

text \<open>The largest number of handles the abstract queue holds before any push of a run.\<close>

fun fifo_peak :: "coroutine list \<Rightarrow> q_op list \<Rightarrow> nat" where
  "fifo_peak xs [] = 0"
| "fifo_peak xs (Push r # ops) = max (length xs) (fifo_peak (xs @ [r]) ops)"
| "fifo_peak xs (Pop # ops) = fifo_peak (tl xs) ops"

section \<open>Programs and contexts\<close>

text \<open>
  \<^verbatim>\<open>struct program_data\<close> (abi.h:63). The fixed-size arrays are functions from the
  index. A program's entry points are code outside the repository: they are functions on
  a state \<open>'w\<close> of everything they can touch (the coroutines' own state and the memory
  of the kernels). \<^verbatim>\<open>begin\<close> returns the new handle; \<^verbatim>\<open>await\<close> returns the C \<^verbatim>\<open>bool\<close>
  (non-zero: not finished); the \<^verbatim>\<open>yield_result\<close> it stores is a local of the caller
  that is never read. A \<^verbatim>\<open>NULL\<close> function pointer is \<open>None\<close>.
\<close>

record program_data =
  descriptor_sets :: "nat \<Rightarrow> ptr"
  descriptor_dynamic_offsets :: "nat \<Rightarrow> 32 word"
  num_workgroups :: "nat \<Rightarrow> 32 word"
  workgroup_size :: "nat \<Rightarrow> 32 word"
  invocations_per_subgroup :: "32 word"
  subgroups_per_workgroup :: "32 word"
  invocations_per_workgroup :: "32 word"
  push_constants :: "nat \<Rightarrow> 8 word"
  constants :: ptr

type_synonym 'w routine_begin =
  "program_data \<Rightarrow> int \<Rightarrow> int \<Rightarrow> int \<Rightarrow> ptr \<Rightarrow> int \<Rightarrow> int \<Rightarrow> 'w \<Rightarrow> coroutine \<times> 'w"

type_synonym 'w routine_await = "coroutine \<Rightarrow> 'w \<Rightarrow> 8 word \<times> 'w"

type_synonym 'w routine_destroy = "coroutine \<Rightarrow> 'w \<Rightarrow> 'w"

text \<open>
  \<^verbatim>\<open>struct program_info\<close> (runtime.h:6). The fields that share a name with a field of
  \<^verbatim>\<open>struct dispatch_context\<close> carry the prefix \<open>info_\<close>.
\<close>

record 'w program_info =
  min_memory_size :: "64 word"
  info_has_cbarriers :: "8 word"
  info_desc_set_size :: "64 word"
  workgroup_size_x :: int
  workgroup_size_y :: int
  workgroup_size_z :: int
  info_begin :: "'w routine_begin option"
  info_await :: "'w routine_await option"
  info_destroy :: "'w routine_destroy option"

text \<open>
  \<^verbatim>\<open>struct dispatch_context\<close> (runtime.c:28); the entry points \<^verbatim>\<open>begin\<close>, \<^verbatim>\<open>await\<close>,
  \<^verbatim>\<open>destroy\<close> are named after their C types.
\<close>

record 'w dispatch_context =
  descriptor_set :: ptr
  desc_set_size :: int
  nthreads :: int
  has_cbarriers :: "8 word"
  memory_size :: "64 word"
  routine_begin :: "'w routine_begin option"
  routine_await :: "'w routine_await option"
  routine_destroy :: "'w routine_destroy option"
  data :: program_data

text \<open>\<^verbatim>\<open>struct thread_context\<close> (runtime.c:44), its fields prefixed with \<open>thread_\<close>.\<close>

record thread_context =
  thread_routines :: coroutines
  thread_memory_size :: "64 word"
  thread_memory :: ptr

definition program_data_zero :: program_data where
  "program_data_zero =
     \<lparr>descriptor_sets = (\<lambda>_. NULL), descriptor_dynamic_offsets = (\<lambda>_. 0),
      num_workgroups = (\<lambda>_. 0), workgroup_size = (\<lambda>_. 0),
      invocations_per_subgroup = 0, subgroups_per_workgroup = 0,
      invocations_per_workgroup = 0, push_constants = (\<lambda>_. 0), constants = NULL\<rparr>"

text \<open>
  \<^verbatim>\<open>alloc_dispatch_context\<close> (runtime.c:110) and \<^verbatim>\<open>alloc_thread_context\<close>
  (runtime.c:124) return a zeroed struct. The structs themselves are values of the model,
  not blocks of \<open>heap\<close>.
\<close>

definition alloc_dispatch_context :: "'w dispatch_context" where
  "alloc_dispatch_context =
     \<lparr>descriptor_set = NULL, desc_set_size = 0, nthreads = 0, has_cbarriers = 0,
      memory_size = 0, routine_begin = None, routine_await = None, routine_destroy = None,
      data = program_data_zero\<rparr>"

definition alloc_thread_context :: thread_context where
  "alloc_thread_context =
     \<lparr>thread_routines = coroutines_zero, thread_memory_size = 0, thread_memory = NULL\<rparr>"

text \<open>\<^verbatim>\<open>free_dispatch_context\<close> (runtime.c:117).\<close>

definition free_dispatch_context ::
  "'w dispatch_context \<Rightarrow> heap \<Rightarrow> error + ('w dispatch_context \<times> heap)" where
  "free_dispatch_context c h =
     (if descriptor_set c \<noteq> NULL then
        (case c_free h (descriptor_set c) of
           Inl e \<Rightarrow> Inl e
         | Inr h' \<Rightarrow> Inr (c\<lparr>descriptor_set := NULL\<rparr>, h'))
      else Inr (c, h))"

section \<open>Preparing a dispatch\<close>

text \<open>
  The first statement of \<^verbatim>\<open>prepare_dispatch\<close> (runtime.c:167-173). The comparison
  converts the \<^verbatim>\<open>int\<close> \<^verbatim>\<open>ctx->desc_set_size\<close> to \<^verbatim>\<open>size_t\<close>; the assignment converts
  the \<^verbatim>\<open>size_t\<close> \<^verbatim>\<open>info->desc_set_size\<close> to \<^verbatim>\<open>int\<close>.
\<close>

definition prepare_storage ::
  "'w dispatch_context \<Rightarrow> heap \<Rightarrow> 'w program_info \<Rightarrow> error + ('w dispatch_context \<times> heap)" where
  "prepare_storage ctx h info =
     (if size_t_of_int (desc_set_size ctx) < info_desc_set_size info then
        (case (if descriptor_set ctx \<noteq> NULL then c_free h (descriptor_set ctx) else Inr h) of
           Inl e \<Rightarrow> Inl e
         | Inr h1 \<Rightarrow>
             (case malloc_align h1 16 (unat (info_desc_set_size info)) of
                Inl e \<Rightarrow> Inl e
              | Inr (p, h2) \<Rightarrow>
                  Inr (ctx\<lparr>descriptor_set := p,
                           desc_set_size := int_of_size_t (info_desc_set_size info)\<rparr>, h2)))
      else Inr (ctx, h))"

text \<open>
  \<^verbatim>\<open>subgroups_per_workgroup\<close> (runtime.c:176-178), all in \<^verbatim>\<open>int\<close>:
  \<open>(invocations_per_workgroup, subgroups_per_workgroup)\<close>.
\<close>

definition subgroup_counts :: "'w program_info \<Rightarrow> error + (int \<times> int)" where
  "subgroup_counts info =
     (case int_mul (workgroup_size_x info) (workgroup_size_y info) of
        Inl e \<Rightarrow> Inl e
      | Inr xy \<Rightarrow>
     (case int_mul xy (workgroup_size_z info) of
        Inl e \<Rightarrow> Inl e
      | Inr ipw \<Rightarrow>
     (case int_add ipw SIMD_WIDTH of
        Inl e \<Rightarrow> Inl e
      | Inr a \<Rightarrow>
     (case int_sub a 1 of
        Inl e \<Rightarrow> Inl e
      | Inr b \<Rightarrow>
     (case int_div b SIMD_WIDTH of
        Inl e \<Rightarrow> Inl e
      | Inr spw \<Rightarrow> Inr (ipw, spw))))))"

text \<open>\<^verbatim>\<open>prepare_dispatch\<close> (runtime.c:166); \<open>desc_set\<close> is the caller's buffer.\<close>

definition prepare_dispatch ::
  "'w dispatch_context \<Rightarrow> heap \<Rightarrow> int \<Rightarrow> 'w program_info \<Rightarrow> 8 word list \<Rightarrow> int \<Rightarrow> int \<Rightarrow> int
     \<Rightarrow> error + ('w dispatch_context \<times> heap)" where
  "prepare_dispatch ctx h nthr info desc_set ngroupx ngroupy ngroupz =
     (case prepare_storage ctx h info of
        Inl e \<Rightarrow> Inl e
      | Inr (ctx1, h1) \<Rightarrow>
     (case c_memcpy h1 (descriptor_set ctx1) desc_set (unat (info_desc_set_size info)) of
        Inl e \<Rightarrow> Inl e
      | Inr h2 \<Rightarrow>
     (case subgroup_counts info of
        Inl e \<Rightarrow> Inl e
      | Inr (ipw, spw) \<Rightarrow>
          Inr (ctx1\<lparr>has_cbarriers := info_has_cbarriers info,
                    routine_begin := info_begin info,
                    routine_await := info_await info,
                    routine_destroy := info_destroy info,
                    nthreads := nthr,
                    memory_size := min_memory_size info,
                    data := (data ctx1)
                      \<lparr>workgroup_size := (workgroup_size (data ctx1))
                         (0 := uint_of_int (workgroup_size_x info),
                          1 := uint_of_int (workgroup_size_y info),
                          2 := uint_of_int (workgroup_size_z info)),
                       num_workgroups := (num_workgroups (data ctx1))
                         (0 := uint_of_int ngroupx,
                          1 := uint_of_int ngroupy,
                          2 := uint_of_int ngroupz),
                       invocations_per_subgroup := uint_of_int SIMD_WIDTH,
                       invocations_per_workgroup := uint_of_int ipw,
                       subgroups_per_workgroup := uint_of_int spw,
                       descriptor_sets := (descriptor_sets (data ctx1))
                         (0 := descriptor_set ctx1)\<rparr>\<rparr>, h2))))"

section \<open>Running a dispatch on one thread\<close>

text \<open>
  The calls a thread makes are recorded in a trace, in order: \<open>Begin x y z mem first count r\<close>
  is a call of \<^verbatim>\<open>begin\<close> with its arguments and the handle \<open>r\<close> it returned,
  \<open>Await r res\<close> a call of \<^verbatim>\<open>await\<close> with its result, \<open>Destroy r\<close> a call of
  \<^verbatim>\<open>destroy\<close>. \<open>Workgroup i x y z\<close> marks the start of the loop body for the flattened
  index \<open>i\<close> with the coordinates computed for it; it is no call of the source.
\<close>

datatype event =
  Workgroup int int int int
  | Begin int int int ptr int int coroutine
  | Await coroutine "8 word"
  | Destroy coroutine

text \<open>The first statement of \<^verbatim>\<open>dispatch_thread\<close> (runtime.c:200-209).\<close>

definition ensure_memory ::
  "'w dispatch_context \<Rightarrow> thread_context \<Rightarrow> heap \<Rightarrow> error + (thread_context \<times> heap)" where
  "ensure_memory ctx thread h =
     (if thread_memory_size thread < memory_size ctx then
        (case (if thread_memory thread \<noteq> NULL then c_free h (thread_memory thread) else Inr h) of
           Inl e \<Rightarrow> Inl e
         | Inr h1 \<Rightarrow>
             (case malloc_align h1 16 (unat (memory_size ctx)) of
                Inl e \<Rightarrow> Inl e
              | Inr (p, h2) \<Rightarrow>
                  Inr (thread\<lparr>thread_memory := p, thread_memory_size := memory_size ctx\<rparr>, h2)))
      else Inr (thread, h))"

text \<open>
  The coordinates of the flattened index \<open>i\<close> (runtime.c:220-225), \<open>(x, y, z)\<close>;
  \<^verbatim>\<open>z * sx * sy\<close> is \<^verbatim>\<open>(z * sx) * sy\<close>.
\<close>

definition group_coords :: "int \<Rightarrow> int \<Rightarrow> int \<Rightarrow> error + (int \<times> int \<times> int)" where
  "group_coords sx sy i =
     (case int_mul sx sy of Inl e \<Rightarrow> Inl e | Inr sxy \<Rightarrow>
     (case int_div i sxy of Inl e \<Rightarrow> Inl e | Inr z \<Rightarrow>
     (case int_mul z sx of Inl e \<Rightarrow> Inl e | Inr zsx \<Rightarrow>
     (case int_mul zsx sy of Inl e \<Rightarrow> Inl e | Inr zsxsy \<Rightarrow>
     (case int_sub i zsxsy of Inl e \<Rightarrow> Inl e | Inr g1 \<Rightarrow>
     (case int_div g1 sx of Inl e \<Rightarrow> Inl e | Inr y \<Rightarrow>
     (case int_mul y sx of Inl e \<Rightarrow> Inl e | Inr ysx \<Rightarrow>
     (case int_sub g1 ysx of Inl e \<Rightarrow> Inl e | Inr x \<Rightarrow> Inr (x, y, z)))))))))"

text \<open>
  The loop over the subgroups (runtime.c:227-230), from \<open>subgroup\<close> on. The loop condition
  compares the \<^verbatim>\<open>int\<close> \<open>subgroup\<close> with a \<^verbatim>\<open>uint32_t\<close>, so in \<^verbatim>\<open>unsigned int\<close>.
\<close>

function spawn_subgroups ::
  "'w dispatch_context \<Rightarrow> int \<Rightarrow> int \<Rightarrow> int \<Rightarrow> ptr \<Rightarrow> int \<Rightarrow> coroutines \<times> 'w \<times> event list
     \<Rightarrow> error + (coroutines \<times> 'w \<times> event list)" where
  "spawn_subgroups ctx x y z mem subgroup (q, w, tr) =
     (if uint_of_int subgroup < subgroups_per_workgroup (data ctx) then
        (case routine_begin ctx of
           None \<Rightarrow> Inl NullPointer
         | Some begin_f \<Rightarrow>
             (case begin_f (data ctx) x y z mem subgroup 1 w of
                (r, w') \<Rightarrow>
                  (case coroutines_push q r of
                     Inl e \<Rightarrow> Inl e
                   | Inr q' \<Rightarrow>
                       (case int_add subgroup 1 of
                          Inl e \<Rightarrow> Inl e
                        | Inr subgroup' \<Rightarrow>
                            spawn_subgroups ctx x y z mem subgroup'
                              (q', w', tr @ [Begin x y z mem subgroup 1 r])))))
      else Inr (q, w, tr))"
  by pat_completeness auto
termination
  by (relation "measure (\<lambda>(ctx, x, y, z, mem, subgroup, s). nat (INT_MAX - subgroup))")
     (auto simp: int_add_def int_result_def in_int_def INT_MAX_def split: if_splits)

text \<open>
  Creating the coroutines of one workgroup (runtime.c:226-234). Without control barriers
  the \<^verbatim>\<open>uint32_t\<close> \<^verbatim>\<open>subgroups_per_workgroup\<close> is converted to the \<^verbatim>\<open>int32_t\<close>
  parameter \<^verbatim>\<open>subgroupCount\<close>.
\<close>

definition spawn ::
  "'w dispatch_context \<Rightarrow> int \<Rightarrow> int \<Rightarrow> int \<Rightarrow> ptr \<Rightarrow> coroutines \<times> 'w \<times> event list
     \<Rightarrow> error + (coroutines \<times> 'w \<times> event list)" where
  "spawn ctx x y z mem s =
     (if has_cbarriers ctx \<noteq> 0 then spawn_subgroups ctx x y z mem 0 s
      else
        (case s of (q, w, tr) \<Rightarrow>
        (case routine_begin ctx of
           None \<Rightarrow> Inl NullPointer
         | Some begin_f \<Rightarrow>
             (let cnt = int_of_uint (subgroups_per_workgroup (data ctx))
              in case begin_f (data ctx) x y z mem 0 cnt w of
                   (r, w') \<Rightarrow>
                     (case coroutines_push q r of
                        Inl e \<Rightarrow> Inl e
                      | Inr q' \<Rightarrow> Inr (q', w', tr @ [Begin x y z mem 0 cnt r]))))))"

text \<open>
  The drain loop (runtime.c:235-243). It may run forever: not returning is \<open>None\<close>.
\<close>

partial_function (option) drain ::
  "'w dispatch_context \<Rightarrow> coroutines \<times> 'w \<times> event list
     \<Rightarrow> (error + (coroutines \<times> 'w \<times> event list)) option" where
  "drain ctx s =
     (case s of (q, w, tr) \<Rightarrow>
     (case coroutines_pop q of
        Inl e \<Rightarrow> Some (Inl e)
      | Inr (None, q') \<Rightarrow> Some (Inr (q', w, tr))
      | Inr (Some r, q') \<Rightarrow>
          (case routine_await ctx of
             None \<Rightarrow> Some (Inl NullPointer)
           | Some await_f \<Rightarrow>
               (case await_f r w of
                  (res, w') \<Rightarrow>
                    if res \<noteq> 0 then
                      (case coroutines_push q' r of
                         Inl e \<Rightarrow> Some (Inl e)
                       | Inr q'' \<Rightarrow> drain ctx (q'', w', tr @ [Await r res]))
                    else
                      (case routine_destroy ctx of
                         None \<Rightarrow> Some (Inl NullPointer)
                       | Some destroy_f \<Rightarrow>
                           drain ctx (q', destroy_f r w', tr @ [Await r res, Destroy r]))))))"

text \<open>The body of the loop over the workgroups (runtime.c:220-243) for the index \<open>i\<close>.\<close>

definition workgroup ::
  "'w dispatch_context \<Rightarrow> ptr \<Rightarrow> int \<Rightarrow> int \<Rightarrow> int \<Rightarrow> coroutines \<times> 'w \<times> event list
     \<Rightarrow> (error + (coroutines \<times> 'w \<times> event list)) option" where
  "workgroup ctx mem sx sy i s =
     (case s of (q, w, tr) \<Rightarrow>
     (case group_coords sx sy i of
        Inl e \<Rightarrow> Some (Inl e)
      | Inr (x, y, z) \<Rightarrow>
          (case spawn ctx x y z mem (q, w, tr @ [Workgroup i x y z]) of
             Inl e \<Rightarrow> Some (Inl e)
           | Inr s1 \<Rightarrow> drain ctx s1)))"

text \<open>The loop over the workgroups (runtime.c:219), from the index \<open>i\<close> on.\<close>

partial_function (option) dispatch_groups ::
  "'w dispatch_context \<Rightarrow> ptr \<Rightarrow> int \<Rightarrow> int \<Rightarrow> int \<Rightarrow> int \<Rightarrow> coroutines \<times> 'w \<times> event list
     \<Rightarrow> (error + (coroutines \<times> 'w \<times> event list)) option" where
  "dispatch_groups ctx mem sx sy ngroups i s =
     (if i < ngroups then
        Option.bind (workgroup ctx mem sx sy i s)
          (\<lambda>res. case res of
             Inl e \<Rightarrow> Some (Inl e)
           | Inr s' \<Rightarrow>
               (case int_add i (nthreads ctx) of
                  Inl e \<Rightarrow> Some (Inl e)
                | Inr i' \<Rightarrow> dispatch_groups ctx mem sx sy ngroups i' s'))
      else Some (Inr s))"

text \<open>
  \<^verbatim>\<open>dispatch_thread\<close> (runtime.c:199). The \<^verbatim>\<open>uint32_t\<close> grid sizes are converted to
  \<^verbatim>\<open>int\<close>. The result is the thread context, the heap, the state of the program and the
  trace of the call.
\<close>

definition dispatch_thread ::
  "'w dispatch_context \<Rightarrow> int \<Rightarrow> thread_context \<Rightarrow> heap \<Rightarrow> 'w
     \<Rightarrow> (error + (thread_context \<times> heap \<times> 'w \<times> event list)) option" where
  "dispatch_thread ctx thread_idx thread h w =
     (case ensure_memory ctx thread h of
        Inl e \<Rightarrow> Some (Inl e)
      | Inr (thread1, h1) \<Rightarrow>
          (let memory = thread_memory thread1;
               sx = int_of_uint (num_workgroups (data ctx) 0);
               sy = int_of_uint (num_workgroups (data ctx) 1);
               sz = int_of_uint (num_workgroups (data ctx) 2)
           in case int_mul sx sy of
                Inl e \<Rightarrow> Some (Inl e)
              | Inr sxy \<Rightarrow>
                  (case int_mul sxy sz of
                     Inl e \<Rightarrow> Some (Inl e)
                   | Inr ngroups \<Rightarrow>
                       Option.bind
                         (dispatch_groups ctx memory sx sy ngroups thread_idx
                            (thread_routines thread1, w, []))
                         (\<lambda>res. case res of
                            Inl e \<Rightarrow> Some (Inl e)
                          | Inr (q, w', tr) \<Rightarrow>
                              Some (Inr (thread1\<lparr>thread_routines := q\<rparr>, h1, w', tr))))))"

text \<open>The handles a sequence pushes, and the handles its pops returned, in order.\<close>

fun pushed :: "q_op list \<Rightarrow> coroutine list" where
  "pushed [] = []"
| "pushed (Push r # ops) = r # pushed ops"
| "pushed (Pop # ops) = pushed ops"

fun popped :: "coroutine option list \<Rightarrow> coroutine list" where
  "popped [] = []"
| "popped (Some r # outs) = r # popped outs"
| "popped (None # outs) = popped outs"

text \<open>
  A queue that holds \<open>e\<close> null handles from index 0 on in an array of \<open>c\<close> null handles:
  the states the zero queue goes through when null handles are pushed and none is popped.
\<close>

definition q_filled :: "coroutines \<Rightarrow> nat \<Rightarrow> nat \<Rightarrow> bool" where
  "q_filled q c e \<longleftrightarrow>
     routines q = replicate c 0 \<and> start q = 0 \<and> unat (endq q) = e \<and> unat (cap q) = c"

section \<open>Invariants and example programs\<close>

text \<open>
  The invariant of a dispatch context that \<^verbatim>\<open>prepare_dispatch\<close> relies on when it skips
  the allocation: a positive recorded size comes with a buffer.
\<close>

definition desc_inv :: "'w dispatch_context \<Rightarrow> bool" where
  "desc_inv c \<longleftrightarrow> (0 < desc_set_size c \<longrightarrow> descriptor_set c \<noteq> NULL)"

text \<open>
  Two contexts with their heaps are equivalent when they agree on everything but the
  address of the descriptor-set buffer (also where it is bound as set 0): all scalar
  fields, the entry points, the other fields of \<open>data\<close> and the bytes of the buffer.
\<close>

definition ctx_equiv ::
  "'w dispatch_context \<Rightarrow> heap \<Rightarrow> 'w dispatch_context \<Rightarrow> heap \<Rightarrow> bool" where
  "ctx_equiv c1 h1 c2 h2 \<longleftrightarrow>
     desc_set_size c2 = desc_set_size c1 \<and> nthreads c2 = nthreads c1 \<and>
     has_cbarriers c2 = has_cbarriers c1 \<and> memory_size c2 = memory_size c1 \<and>
     routine_begin c2 = routine_begin c1 \<and> routine_await c2 = routine_await c1 \<and>
     routine_destroy c2 = routine_destroy c1 \<and>
     data c2 = (data c1)\<lparr>descriptor_sets := (descriptor_sets (data c1))(0 := descriptor_set c2)\<rparr> \<and>
     descriptor_sets (data c1) 0 = descriptor_set c1 \<and>
     blocks h2 (descriptor_set c2) = blocks h1 (descriptor_set c1)"

text \<open>
  The scratch memory of a thread context: the address is 16-byte aligned, and it is
  either \<^verbatim>\<open>NULL\<close> with recorded size 0 or a live block of at least the recorded size.
\<close>

definition thread_inv :: "thread_context \<Rightarrow> heap \<Rightarrow> bool" where
  "thread_inv t h \<longleftrightarrow>
     16 dvd thread_memory t \<and>
     (if thread_memory t = NULL then thread_memory_size t = 0
      else case blocks h (thread_memory t) of
             None \<Rightarrow> False
           | Some b \<Rightarrow> unat (thread_memory_size t) \<le> length b)"

text \<open>An empty heap of \<open>n\<close> bytes, and the metadata of a program without entry points.\<close>

definition heap_init :: "nat \<Rightarrow> heap" where
  "heap_init n = \<lparr>blocks = Map.empty, brk = 1, limit = n\<rparr>"

definition info_sized :: "64 word \<Rightarrow> unit program_info" where
  "info_sized n =
     \<lparr>min_memory_size = 0, info_has_cbarriers = 0, info_desc_set_size = n,
      workgroup_size_x = 4, workgroup_size_y = 1, workgroup_size_z = 1,
      info_begin = None, info_await = None, info_destroy = None\<rparr>"

section \<open>Traces, cooperative programs and the work partition\<close>

text \<open>What a trace records: the handles \<^verbatim>\<open>begin\<close> returned, the handles passed to
  \<^verbatim>\<open>destroy\<close> and to \<^verbatim>\<open>await\<close>, the arguments \<open>(x, y, z, first, count)\<close> and the
  memory pointers \<^verbatim>\<open>begin\<close> was called with, and the workgroups \<open>(i, x, y, z)\<close>
  started.\<close>

definition begun :: "event list \<Rightarrow> coroutine list" where
  "begun tr = concat (map (\<lambda>e. case e of Begin x y z m f c r \<Rightarrow> [r] | _ \<Rightarrow> []) tr)"

definition destroyed :: "event list \<Rightarrow> coroutine list" where
  "destroyed tr = concat (map (\<lambda>e. case e of Destroy r \<Rightarrow> [r] | _ \<Rightarrow> []) tr)"

definition awaited :: "event list \<Rightarrow> coroutine list" where
  "awaited tr = concat (map (\<lambda>e. case e of Await r res \<Rightarrow> [r] | _ \<Rightarrow> []) tr)"

definition begin_calls :: "event list \<Rightarrow> (int \<times> int \<times> int \<times> int \<times> int) list" where
  "begin_calls tr =
     concat (map (\<lambda>e. case e of Begin x y z m f c r \<Rightarrow> [(x, y, z, f, c)] | _ \<Rightarrow> []) tr)"

definition begin_mems :: "event list \<Rightarrow> ptr list" where
  "begin_mems tr = concat (map (\<lambda>e. case e of Begin x y z m f c r \<Rightarrow> [m] | _ \<Rightarrow> []) tr)"

definition groups_of :: "event list \<Rightarrow> (int \<times> int \<times> int \<times> int) list" where
  "groups_of tr =
     concat (map (\<lambda>e. case e of Workgroup i x y z \<Rightarrow> [(i, x, y, z)] | _ \<Rightarrow> []) tr)"

text \<open>No handle is awaited or destroyed again after its \<^verbatim>\<open>destroy\<close>.\<close>

fun no_use_after_destroy :: "event list \<Rightarrow> bool" where
  "no_use_after_destroy [] = True"
| "no_use_after_destroy (Destroy r # es) =
     (r \<notin> set (awaited es) \<and> r \<notin> set (destroyed es) \<and> no_use_after_destroy es)"
| "no_use_after_destroy (e # es) = no_use_after_destroy es"

text \<open>
  The queue discipline, read off a trace; \<open>live\<close> are the handles \<^verbatim>\<open>begin\<close> returned that
  were not yet passed to \<^verbatim>\<open>destroy\<close>, each as often as it was returned. The loop body of a
  workgroup starts with no live handle, and only a live handle is passed to \<^verbatim>\<open>await\<close> or
  to \<^verbatim>\<open>destroy\<close>. The result is the live handles at the end of the trace, \<open>None\<close> if the
  trace breaks the discipline.
\<close>

fun live_after :: "event list \<Rightarrow> coroutine multiset \<Rightarrow> coroutine multiset option" where
  "live_after [] live = Some live"
| "live_after (Workgroup i x y z # es) live =
     (if live = {#} then live_after es live else None)"
| "live_after (Begin x y z m f c r # es) live = live_after es (add_mset r live)"
| "live_after (Await r res # es) live = (if r \<in># live then live_after es live else None)"
| "live_after (Destroy r # es) live =
     (if r \<in># live then live_after es (live - {#r#}) else None)"

text \<open>
  The calls of a trace made again, in order, on the program state \<open>w\<close>: the state after the
  last call, \<open>None\<close> if an entry point is missing or returns another result than the trace
  records.
\<close>

fun replay :: "'w dispatch_context \<Rightarrow> event list \<Rightarrow> 'w \<Rightarrow> 'w option" where
  "replay ctx [] w = Some w"
| "replay ctx (Workgroup i x y z # es) w = replay ctx es w"
| "replay ctx (Begin x y z m f c r # es) w =
     (case routine_begin ctx of
        None \<Rightarrow> None
      | Some begin_f \<Rightarrow>
          (case begin_f (data ctx) x y z m f c w of
             (r', w') \<Rightarrow> if r' = r then replay ctx es w' else None))"
| "replay ctx (Await r res # es) w =
     (case routine_await ctx of
        None \<Rightarrow> None
      | Some await_f \<Rightarrow>
          (case await_f r w of
             (res', w') \<Rightarrow> if res' = res then replay ctx es w' else None))"
| "replay ctx (Destroy r # es) w =
     (case routine_destroy ctx of
        None \<Rightarrow> None
      | Some destroy_f \<Rightarrow> replay ctx es (destroy_f r w))"

text \<open>The context has its three entry points.\<close>

definition has_entry_points :: "'w dispatch_context \<Rightarrow> bool" where
  "has_entry_points ctx \<longleftrightarrow>
     routine_begin ctx \<noteq> None \<and> routine_await ctx \<noteq> None \<and> routine_destroy ctx \<noteq> None"

text \<open>
  Every coroutine's \<^verbatim>\<open>await\<close> returns finished after finitely many calls: \<open>left w r\<close>
  bounds the number of calls of \<^verbatim>\<open>await\<close> on \<open>r\<close> that can still return not-finished in
  the state \<open>w\<close>. Such a call lowers the bound of \<open>r\<close> and raises the bound of no other
  handle.
\<close>

definition finishing :: "'w dispatch_context \<Rightarrow> ('w \<Rightarrow> coroutine \<Rightarrow> nat) \<Rightarrow> bool" where
  "finishing ctx left \<longleftrightarrow>
     (\<forall>aw r w. routine_await ctx = Some aw \<longrightarrow>
        (case aw r w of
           (res, w') \<Rightarrow>
             res \<noteq> 0 \<longrightarrow> left w' r < left w r \<and> (\<forall>r'. r' \<noteq> r \<longrightarrow> left w' r' \<le> left w r')))"

text \<open>
  The specification's partition: the flattened indices \<open>t, t + T, t + 2 T, ...\<close> below
  \<open>n\<close>, in increasing order, and the coordinates of an index.
\<close>

definition thread_indices :: "int \<Rightarrow> int \<Rightarrow> int \<Rightarrow> int list" where
  "thread_indices T n t = filter (\<lambda>i. t \<le> i \<and> (i - t) mod T = 0) [0..n - 1]"

definition coords_of :: "int \<Rightarrow> int \<Rightarrow> int \<Rightarrow> int \<times> int \<times> int \<times> int" where
  "coords_of sx sy i = (i, i mod sx, (i div sx) mod sy, i div (sx * sy))"

text \<open>The \<^verbatim>\<open>begin\<close> calls the specification describes for the workgroup \<open>(i, x, y, z)\<close>.\<close>

definition group_begins ::
  "'w dispatch_context \<Rightarrow> int \<times> int \<times> int \<times> int \<Rightarrow> (int \<times> int \<times> int \<times> int \<times> int) list" where
  "group_begins ctx g =
     (case g of (i, x, y, z) \<Rightarrow>
        if has_cbarriers ctx \<noteq> 0
        then map (\<lambda>s. (x, y, z, s, 1)) [0..int (unat (subgroups_per_workgroup (data ctx))) - 1]
        else [(x, y, z, 0, int (unat (subgroups_per_workgroup (data ctx))))])"

text \<open>The trace of a call of \<^verbatim>\<open>dispatch_thread\<close> that returned (empty otherwise).\<close>

definition trace_of ::
  "(error + (thread_context \<times> heap \<times> 'w \<times> event list)) option \<Rightarrow> event list" where
  "trace_of res = (case res of Some (Inr (t, h, w, tr)) \<Rightarrow> tr | _ \<Rightarrow> [])"

text \<open>
  An example program. Its state is the last handle handed out, for every handle the
  number of times \<^verbatim>\<open>await\<close> will still report not-finished, and the tokens of the handles
  that were handed out and not destroyed. \<^verbatim>\<open>begin\<close> hands out the next handle, which
  suspends as many times as its subgroup index says, and records its token; \<^verbatim>\<open>destroy\<close>
  removes the token of its handle.
\<close>

type_synonym countdown = "nat \<times> (coroutine \<Rightarrow> nat) \<times> coroutine list"

definition countdown_begin :: "countdown routine_begin" where
  "countdown_begin d x y z mem first cnt w =
     (case w of (n, rem, tokens) \<Rightarrow>
        (Suc n, (Suc n, rem(Suc n := nat first), tokens @ [Suc n])))"

definition countdown_await :: "countdown routine_await" where
  "countdown_await r w =
     (case w of (n, rem, tokens) \<Rightarrow>
        if rem r = 0 then (0, (n, rem, tokens)) else (1, (n, rem(r := rem r - 1), tokens)))"

definition countdown_destroy :: "countdown routine_destroy" where
  "countdown_destroy r w = (case w of (n, rem, tokens) \<Rightarrow> (n, rem, remove1 r tokens))"

definition countdown_left :: "countdown \<Rightarrow> coroutine \<Rightarrow> nat" where
  "countdown_left w r = fst (snd w) r"

definition countdown_info :: "8 word \<Rightarrow> countdown program_info" where
  "countdown_info barriers =
     \<lparr>min_memory_size = 64, info_has_cbarriers = barriers, info_desc_set_size = 0,
      workgroup_size_x = 8, workgroup_size_y = 1, workgroup_size_z = 1,
      info_begin = Some countdown_begin, info_await = Some countdown_await,
      info_destroy = Some countdown_destroy\<rparr>"

text \<open>The context \<^verbatim>\<open>prepare_dispatch\<close> makes of the example program on a fresh context.\<close>

definition countdown_ctx :: "8 word \<Rightarrow> int \<Rightarrow> int \<Rightarrow> int \<Rightarrow> int \<Rightarrow> countdown dispatch_context" where
  "countdown_ctx barriers T gx gy gz =
     (case prepare_dispatch alloc_dispatch_context (heap_init 4096) T (countdown_info barriers) []
             gx gy gz of
        Inr (c, h) \<Rightarrow> c
      | Inl e \<Rightarrow> alloc_dispatch_context)"

section \<open>Arithmetic and allocation lemmas\<close>

lemma posix_memalign_aligned:
  "posix_memalign h a n = (0, p, h') \<Longrightarrow> a dvd p"
  by (auto simp: posix_memalign_def Let_def split: if_splits)

lemma and_minus_16_int: "(m::int) AND - 16 = (m div 16) * 16"
proof -
  have "m AND NOT (mask 4) = push_bit 4 (drop_bit 4 m)"
    by (rule bit_eqI) (auto simp: bit_simps)
  then show ?thesis
    by (simp add: push_bit_eq_mult drop_bit_eq_div mask_eq_exp_minus_1)
qed

lemma round_word:
  "(size_t_of_int n + 16 - 1) AND size_t_of_int (NOT (16 - 1)) = size_t_of_int (round_up16 n)"
proof -
  have "size_t_of_int n + 16 - 1 = size_t_of_int (n + 15)"
    by (simp add: size_t_of_int_def)
  moreover have "size_t_of_int (n + 15) AND size_t_of_int (- 16) = size_t_of_int ((n + 15) AND - 16)"
    unfolding size_t_of_int_def by (simp only: of_int_and_eq)
  ultimately show ?thesis
    by (simp add: and_minus_16_int round_up16_def)
qed

lemma round_up16_bounds:
  assumes "0 \<le> n" "n \<le> 2147483632"
  shows "0 \<le> round_up16 n" "round_up16 n \<le> 2147483632" "n \<le> round_up16 n"
  using assms unfolding round_up16_def by presburger+

lemma unat_size_t: "0 \<le> v \<Longrightarrow> v < 2 ^ 64 \<Longrightarrow> unat (size_t_of_int v) = nat v"
  by (simp add: size_t_of_int_def unat_eq_nat_uint uint_word_of_int)

lemma int_of_size_t_small: "0 \<le> v \<Longrightarrow> v < 2 ^ 31 \<Longrightarrow> int_of_size_t (size_t_of_int v) = v"
  by (simp add: int_of_size_t_def size_t_of_int_def ucast_down_wi is_down sint_sbintrunc' signed_take_bit_int_eq_self)

lemma posix_memalign_success:
  assumes "fst (posix_memalign h a n) = 0"
  shows "\<exists>p h'. posix_memalign h a n = (0, p, h') \<and> a dvd p \<and> blocks h' p = Some (replicate n 0)"
  using assms by (auto simp: posix_memalign_def Let_def split: if_splits)

lemma malloc_align_success:
  assumes "fst (posix_memalign h a n) = 0"
  shows "\<exists>p h'. malloc_align h a n = Inr (p, h') \<and> a dvd p \<and> blocks h' p = Some (replicate n 0)"
  using posix_memalign_success[OF assms] by (auto simp: malloc_align_def)

lemma in_int_iff: "in_int v \<longleftrightarrow> - 2147483648 \<le> v \<and> v \<le> 2147483647"
  by (simp add: in_int_def INT_MIN_def INT_MAX_def)

section \<open>The queue refines a list\<close>

lemma q_list_length:
  assumes "q_inv q"
  shows "length (q_list q) =
     (if start q \<le> endq q then unat (endq q) - unat (start q)
      else unat (cap q) - unat (start q) + unat (endq q))"
  using assms
  by (auto simp: q_list_def q_inv_def word_le_nat_alt word_less_nat_alt split: if_splits)

lemma q_list_lt_cap:
  assumes "q_inv q" "cap q \<noteq> 0"
  shows "length (q_list q) < unat (cap q)"
  using assms
  by (auto simp: q_list_length q_inv_def word_le_nat_alt word_less_nat_alt split: if_splits)

lemma q_empty_iff:
  assumes "q_inv q"
  shows "start q = endq q \<longleftrightarrow> q_list q = []"
proof
  assume "start q = endq q" then show "q_list q = []" by (simp add: q_list_def)
next
  assume e: "q_list q = []"
  have "(if start q \<le> endq q then unat (endq q) - unat (start q)
      else unat (cap q) - unat (start q) + unat (endq q)) = 0"
    using q_list_length[OF assms] e by simp
  with assms show "start q = endq q"
    by (auto simp: q_inv_def word_le_nat_alt word_less_nat_alt word_unat_eq_iff split: if_splits)
qed

lemma unat_succ_mod:
  fixes s c :: "32 word"
  assumes "s < c"
  shows "unat ((s + 1) mod c) = (if unat s + 1 = unat c then 0 else unat s + 1)"
proof -
  have 1: "unat s + 1 \<le> unat c" using assms by (simp add: word_less_nat_alt)
  have 2: "unat c < 2 ^ 32" using unsigned_less[of c] by simp
  have "unat (s + 1) = unat s + 1"
    using 1 2 by (simp add: unat_word_ariths)
  then show ?thesis using 1 by (auto simp: unat_mod)
qed

lemma pop_empty:
  assumes "q_inv q" "q_list q = []"
  shows "coroutines_pop q = Inr (None, q)"
  using assms q_empty_iff[of q] by (simp add: coroutines_pop_def)

lemma pop_nonempty:
  assumes "q_inv q" "q_list q = x # xs"
  shows "\<exists>q'. coroutines_pop q = Inr (Some x, q') \<and> q_inv q' \<and> q_list q' = xs \<and>
      cap q' = cap q \<and> routines q' = routines q \<and> endq q' = endq q"
proof -
  from assms have ne: "start q \<noteq> endq q" using q_empty_iff[of q] by auto
  with assms have c0: "cap q \<noteq> 0" by (auto simp: q_inv_def)
  with assms have lt: "start q < cap q" "endq q < cap q" and len: "length (routines q) = unat (cap q)"
    by (auto simp: q_inv_def)
  define q' where "q' = q\<lparr>start := (start q + 1) mod cap q\<rparr>"
  have s: "unat (start q) < unat (cap q)" "unat (endq q) < unat (cap q)"
    using lt by (simp_all add: word_less_nat_alt)
  have pop: "coroutines_pop q = Inr (Some (routines q ! unat (start q)), q')"
    using ne c0 s len by (simp add: coroutines_pop_def q'_def)
  have us: "unat (start q') = (if unat (start q) + 1 = unat (cap q) then 0 else unat (start q) + 1)"
    by (simp add: q'_def unat_succ_mod[OF lt(1)])
  have inv: "q_inv q'"
    using assms(1) c0 s us
    by (auto simp: q_inv_def q'_def word_less_nat_alt split: if_splits)
  have dropc: "drop (unat (start q)) (routines q) = routines q ! unat (start q) # drop (Suc (unat (start q))) (routines q)"
    using s len by (simp add: Cons_nth_drop_Suc)
  have "x = routines q ! unat (start q) \<and> q_list q' = xs"
  proof (cases "start q \<le> endq q")
    case True
    then have lt2: "unat (start q) < unat (endq q)" using ne
      by (simp add: word_le_nat_alt word_unat_eq_iff)
    then have n1: "unat (start q) + 1 \<noteq> unat (cap q)" using s by simp
    have le': "start q' \<le> endq q'" using lt2 us n1 by (simp add: word_le_nat_alt q'_def)
    from assms(2) True lt2 have "take (unat (endq q) - unat (start q)) (drop (unat (start q)) (routines q)) = x # xs"
      by (simp add: q_list_def)
    then have "take (Suc (unat (endq q) - Suc (unat (start q)))) (routines q ! unat (start q) # drop (Suc (unat (start q))) (routines q)) = x # xs"
      using dropc lt2 by (simp add: Suc_diff_Suc)
    then have "x = routines q ! unat (start q)" "take (unat (endq q) - Suc (unat (start q))) (drop (Suc (unat (start q))) (routines q)) = xs"
      by simp_all
    then show ?thesis using le' us n1 by (simp add: q_list_def q'_def)
  next
    case False
    then have gt: "unat (endq q) < unat (start q)" by (simp add: word_le_nat_alt)
    from assms(2) False have e: "drop (unat (start q)) (routines q) @ take (unat (endq q)) (routines q) = x # xs"
      by (simp add: q_list_def)
    then have x: "x = routines q ! unat (start q)" and xs: "xs = drop (Suc (unat (start q))) (routines q) @ take (unat (endq q)) (routines q)"
      using dropc by simp_all
    show ?thesis
    proof (cases "unat (start q) + 1 = unat (cap q)")
      case True
      then have "start q' = 0" using us by (simp add: unat_eq_zero)
      then show ?thesis using x xs True len by (simp add: q_list_def q'_def)
    next
      case False
      then have "unat (start q') = unat (start q) + 1" using us by simp
      moreover have "\<not> start q' \<le> endq q'" using gt calculation by (simp add: word_le_nat_alt q'_def)
      ultimately show ?thesis using x xs by (simp add: q_list_def q'_def)
    qed
  qed
  then show ?thesis using pop inv by (auto simp: q'_def)
qed

lemma unat_lt32: "unat (w :: 32 word) < 4294967296"
proof -
  have "unat w < 2 ^ LENGTH(32)" by (rule unsigned_less)
  then show ?thesis by simp
qed

lemma unat_succ32:
  fixes e c :: "32 word"
  assumes "unat e + 1 < unat c"
  shows "unat (e + 1) = unat e + 1" "unat ((e + 1) mod c) = unat e + 1"
proof -
  show 1: "unat (e + 1) = unat e + 1"
    using assms unat_lt32[of c] by (simp add: unat_word_ariths)
  show "unat ((e + 1) mod c) = unat e + 1"
    using assms 1 by (simp add: unat_mod)
qed

lemma newcap_unat:
  fixes c :: "32 word"
  assumes "unat c < 2 ^ 31"
  shows "unat (if c * 2 < 10 then 10 else c * 2) = (if unat c < 5 then 10 else 2 * unat c)"
proof -
  have "unat (c * 2) = unat c * 2"
    using assms by (simp add: unat_word_ariths)
  then show ?thesis by (auto simp: word_less_nat_alt)
qed

lemma grow_correct:
  assumes inv: "q_inv q" and small: "unat (cap q) < 2 ^ 31"
  shows "\<exists>q' nxt. coroutines_grow q = Inr (q', nxt) \<and> q_inv q' \<and> q_list q' = q_list q \<and>
     unat (cap q') = (if unat (cap q) < 5 then 10 else 2 * unat (cap q)) \<and>
     start q' = start q \<and> start q' \<le> endq q' \<and>
     unat (endq q') + 1 < unat (cap q') \<and> unat nxt = unat (endq q') + 1"
proof -
  define newcap :: "32 word" where "newcap = (if cap q * 2 < 10 then 10 else cap q * 2)"
  define buf where "buf = realloc_array (routines q) (unat newcap)"
  have nc: "unat newcap = (if unat (cap q) < 5 then 10 else 2 * unat (cap q))"
    unfolding newcap_def by (rule newcap_unat[OF small])
  have len: "length (routines q) = unat (cap q)" using inv by (simp add: q_inv_def)
  have ncge: "unat (cap q) \<le> unat newcap" "10 \<le> unat newcap" using nc by (auto split: if_splits)
  have buf: "buf = routines q @ replicate (unat newcap - unat (cap q)) 0"
    using len ncge by (simp add: buf_def realloc_array_def)
  have lbuf: "length buf = unat newcap" using buf len ncge by simp
  have se: "unat (start q) \<le> unat (cap q)" "unat (endq q) \<le> unat (cap q)"
    "cap q \<noteq> 0 \<Longrightarrow> unat (start q) < unat (cap q)" "cap q \<noteq> 0 \<Longrightarrow> unat (endq q) < unat (cap q)"
    using inv by (auto simp: q_inv_def word_less_nat_alt split: if_splits)
  have mx: "unat (newcap - cap q) = unat newcap - unat (cap q)"
    using ncge by (simp add: unat_sub word_le_nat_alt)
  show ?thesis
  proof (cases "endq q < start q")
    case False
    then have le: "start q \<le> endq q" by simp
    define q' where "q' = q\<lparr>routines := buf, endq := endq q, cap := newcap\<rparr>"
    have g: "coroutines_grow q = Inr (q', (endq q + 1) mod newcap)"
      using False by (simp add: coroutines_grow_def Let_def newcap_def[symmetric] buf_def[symmetric] q'_def)
    have e1: "unat (endq q) + 1 < unat newcap"
      using se nc by (cases "cap q = 0") (auto simp: unat_eq_zero split: if_splits)
    have nx: "unat ((endq q + 1) mod newcap) = unat (endq q) + 1"
      using e1 by (rule unat_succ32)
    have n0: "newcap \<noteq> 0" using ncge by (auto simp: unat_eq_zero)
    have sl: "start q < newcap"
      using se e1 le by (simp add: word_less_nat_alt word_le_nat_alt)
    have inv': "q_inv q'"
      using lbuf n0 e1 sl by (simp add: q_inv_def q'_def word_less_nat_alt)
    have "q_list q' = q_list q"
      using le se len by (simp add: q_list_def q'_def buf word_le_nat_alt)
    then show ?thesis using g inv' nc le e1 nx by (simp add: q'_def)
  next
    case True
    then have lt: "unat (endq q) < unat (start q)" by (simp add: word_less_nat_alt)
    then have c0: "cap q \<noteq> 0" using se by (auto simp: unat_eq_zero)
    have s: "unat (start q) < unat (cap q)" using se c0 by simp
    have asrt: "endq q \<le> newcap - cap q"
      using lt s nc mx by (auto simp: word_le_nat_alt split: if_splits)
    have ec: "unat (endq q + cap q) = unat (endq q) + unat (cap q)"
      using lt s small by (simp add: unat_word_ariths)
    define buf' where "buf' = take (unat (cap q)) buf @ take (unat (endq q)) (drop 0 buf) @ drop (unat (cap q) + unat (endq q)) buf"
    have fits: "unat (cap q) + unat (endq q) \<le> length buf"
      using lt s nc lbuf by (auto split: if_splits)
    have mm: "memmove_array buf (unat (cap q)) 0 (unat (endq q)) = Inr buf'"
    proof (cases "unat (endq q) = 0")
      case True
      then show ?thesis by (simp add: memmove_array_def buf'_def)
    next
      case False
      then show ?thesis using fits by (simp add: memmove_array_def buf'_def)
    qed
    define q' where "q' = q\<lparr>routines := buf', endq := endq q + cap q, cap := newcap\<rparr>"
    have g: "coroutines_grow q = Inr (q', (endq q + cap q + 1) mod newcap)"
      using True asrt mm
      by (simp add: coroutines_grow_def Let_def newcap_def[symmetric] buf_def[symmetric] q'_def)
    have e1: "unat (endq q + cap q) + 1 < unat newcap"
      using lt s nc ec by (auto split: if_splits)
    have nx: "unat ((endq q + cap q + 1) mod newcap) = unat (endq q + cap q) + 1"
      using e1 by (rule unat_succ32)
    have n0: "newcap \<noteq> 0" using ncge by (auto simp: unat_eq_zero)
    have le': "start q \<le> endq q + cap q" using s ec by (simp add: word_le_nat_alt)
    have sl: "start q < newcap" using s ncge by (simp add: word_less_nat_alt)
    have lbuf': "length buf' = unat newcap"
      using fits lbuf by (simp add: buf'_def)
    have inv': "q_inv q'"
      using lbuf' n0 e1 sl by (simp add: q_inv_def q'_def word_less_nat_alt)
    have b': "buf' = routines q @ take (unat (endq q)) (routines q) @ drop (unat (cap q) + unat (endq q)) buf"
      using len lt s by (simp add: buf'_def buf)
    have "q_list q' = drop (unat (start q)) (routines q) @ take (unat (endq q)) (routines q)"
      using le' ec len s lt by (simp add: q_list_def q'_def b')
    moreover have "q_list q = drop (unat (start q)) (routines q) @ take (unat (endq q)) (routines q)"
      using True by (simp add: q_list_def not_le[symmetric])
    ultimately show ?thesis using g inv' nc le' e1 nx by (simp add: q'_def)
  qed
qed

lemma q_list_snoc_linear:
  assumes "unat s \<le> unat e" "unat e < length buf" "start q = s" "endq q = e" "routines q = buf"
    "unat e' = unat e + 1"
  shows "q_list (q\<lparr>routines := buf[unat e := r], endq := e'\<rparr>) = q_list q @ [r]"
proof -
  have le: "s \<le> e" "s \<le> e'" using assms by (simp_all add: word_le_nat_alt)
  have "take (Suc (unat e) - unat s) (drop (unat s) (buf[unat e := r]))
      = take (unat e - unat s) (drop (unat s) buf) @ [r]"
  proof -
    have d: "drop (unat s) (buf[unat e := r]) = (drop (unat s) buf)[unat e - unat s := r]"
      using assms(1) by (simp add: drop_update_swap)
    have l: "unat e - unat s < length (drop (unat s) buf)" using assms by simp
    have "Suc (unat e) - unat s = Suc (unat e - unat s)" using assms(1) by simp
    then show ?thesis unfolding d using l
      by (simp add: take_Suc_conv_app_nth)
  qed
  then show ?thesis using le assms by (simp add: q_list_def)
qed

lemma list_update_last: "length xs = Suc n \<Longrightarrow> xs[n := r] = take n xs @ [r]"
  by (simp add: upd_conv_take_nth_drop)

lemma push_correct:
  assumes inv: "q_inv q"
    and room: "length (q_list q) + 1 < unat (cap q) \<or> unat (cap q) < 2 ^ 31"
  shows "\<exists>q'. coroutines_push q r = Inr q' \<and> q_inv q' \<and> q_list q' = q_list q @ [r] \<and>
     (if length (q_list q) + 1 < unat (cap q) then cap q' = cap q
      else unat (cap q') = (if unat (cap q) < 5 then 10 else 2 * unat (cap q)))"
proof -
  define next1 :: "32 word" where "next1 = (if cap q \<le> endq q + 1 then 0 else endq q + 1)"
  have len: "length (routines q) = unat (cap q)" using inv by (simp add: q_inv_def)
  have ql: "length (q_list q) = (if start q \<le> endq q then unat (endq q) - unat (start q)
      else unat (cap q) - unat (start q) + unat (endq q))" by (rule q_list_length[OF inv])
  show ?thesis
  proof (cases "cap q = 0")
    case True
    with inv have z: "start q = 0" "endq q = 0" by (simp_all add: q_inv_def)
    have n1: "next1 = start q" using True z by (simp add: next1_def)
    have small: "unat (cap q) < 2 ^ 31" using True by simp
    from grow_correct[OF inv small] obtain q1 nxt where g: "coroutines_grow q = Inr (q1, nxt)"
      and i1: "q_inv q1" and l1: "q_list q1 = q_list q"
      and c1: "unat (cap q1) = (if unat (cap q) < 5 then 10 else 2 * unat (cap q))"
      and s1: "start q1 = start q" "start q1 \<le> endq q1"
      and e1: "unat (endq q1) + 1 < unat (cap q1)" "unat nxt = unat (endq q1) + 1" by blast
    have len1: "length (routines q1) = unat (cap q1)" using i1 by (simp add: q_inv_def)
    define q' where "q' = q1\<lparr>routines := (routines q1)[unat (endq q1) := r], endq := nxt\<rparr>"
    have p: "coroutines_push q r = Inr q'"
      using n1 g e1 len1 by (simp add: coroutines_push_def Let_def next1_def[symmetric] q'_def)
    have c10: "cap q1 \<noteq> 0" using e1 by (auto simp: unat_eq_zero)
    have i': "q_inv q'"
      using i1 e1 c10 by (auto simp: q_inv_def q'_def word_less_nat_alt)
    have "q_list q' = q_list q1 @ [r]"
      unfolding q'_def
      by (rule q_list_snoc_linear[where s="start q1" and e="endq q1"])
         (use s1 e1 len1 in \<open>simp_all add: word_le_nat_alt\<close>)
    moreover have "cap q' = cap q1" by (simp add: q'_def)
    ultimately show ?thesis using p i' l1 c1 True by auto
  next
    case False
    with inv have lt: "unat (start q) < unat (cap q)" "unat (endq q) < unat (cap q)"
      by (simp_all add: q_inv_def word_less_nat_alt)
    have e1u: "unat (endq q + 1) = (if unat (endq q) + 1 = unat (cap q) \<and> unat (cap q) = 2 ^ 32 then 0 else unat (endq q) + 1)"
      using lt unat_lt32[of "cap q"] by (auto simp: unat_word_ariths)
    have e1u': "unat (endq q + 1) = unat (endq q) + 1"
      using lt unat_lt32[of "cap q"] by (simp add: unat_word_ariths)
    have n1u: "unat next1 = (if unat (endq q) + 1 = unat (cap q) then 0 else unat (endq q) + 1)"
      using lt e1u' by (auto simp: next1_def word_le_nat_alt)
    show ?thesis
    proof (cases "next1 = start q")
      case True
      then have full: "length (q_list q) + 1 = unat (cap q)"
        using n1u lt ql by (auto simp: word_le_nat_alt word_unat_eq_iff split: if_splits)
      with room have small: "unat (cap q) < 2 ^ 31" by simp
      from grow_correct[OF inv small] obtain q1 nxt where g: "coroutines_grow q = Inr (q1, nxt)"
        and i1: "q_inv q1" and l1: "q_list q1 = q_list q"
        and c1: "unat (cap q1) = (if unat (cap q) < 5 then 10 else 2 * unat (cap q))"
        and s1: "start q1 = start q" "start q1 \<le> endq q1"
        and e1: "unat (endq q1) + 1 < unat (cap q1)" "unat nxt = unat (endq q1) + 1" by blast
      have len1: "length (routines q1) = unat (cap q1)" using i1 by (simp add: q_inv_def)
      define q' where "q' = q1\<lparr>routines := (routines q1)[unat (endq q1) := r], endq := nxt\<rparr>"
      have p: "coroutines_push q r = Inr q'"
        using True g e1 len1 by (simp add: coroutines_push_def Let_def next1_def[symmetric] q'_def)
      have c10: "cap q1 \<noteq> 0" using e1 by (auto simp: unat_eq_zero)
      have i': "q_inv q'"
        using i1 e1 c10 by (auto simp: q_inv_def q'_def word_less_nat_alt)
      have "q_list q' = q_list q1 @ [r]"
        unfolding q'_def
        by (rule q_list_snoc_linear[where s="start q1" and e="endq q1"])
           (use s1 e1 len1 in \<open>simp_all add: word_le_nat_alt\<close>)
      moreover have "cap q' = cap q1" by (simp add: q'_def)
      ultimately show ?thesis using p i' l1 c1 full by auto
    next
      case nf: False
      define q' where "q' = q\<lparr>routines := (routines q)[unat (endq q) := r], endq := next1\<rparr>"
      have p: "coroutines_push q r = Inr q'"
        using nf lt len by (simp add: coroutines_push_def Let_def next1_def[symmetric] q'_def)
      have i': "q_inv q'"
        using inv False n1u lt by (auto simp: q_inv_def q'_def word_less_nat_alt)
      have notfull: "length (q_list q) + 1 < unat (cap q)"
        using nf n1u lt ql by (auto simp: word_le_nat_alt word_unat_eq_iff split: if_splits)
      have "q_list q' = q_list q @ [r]"
      proof (cases "unat (endq q) + 1 = unat (cap q)")
        case wrap: True
        then have n0: "next1 = 0" using n1u by (simp add: unat_eq_zero)
        with nf have s0: "unat (start q) \<noteq> 0" by (auto simp: unat_eq_zero)
        have le: "start q \<le> endq q" using wrap lt by (simp add: word_le_nat_alt)
        have nle: "\<not> start q \<le> (0::32 word)" using s0 by (simp add: word_le_nat_alt)
        have "drop (unat (start q)) ((routines q)[unat (endq q) := r])
            = take (unat (endq q) - unat (start q)) (drop (unat (start q)) (routines q)) @ [r]"
        proof -
          have d: "drop (unat (start q)) ((routines q)[unat (endq q) := r]) = (drop (unat (start q)) (routines q))[unat (endq q) - unat (start q) := r]"
            using le by (simp add: drop_update_swap word_le_nat_alt)
          have l: "length (drop (unat (start q)) (routines q)) = Suc (unat (endq q) - unat (start q))"
            using len wrap lt le by (simp add: word_le_nat_alt)
          have "(drop (unat (start q)) (routines q))[unat (endq q) - unat (start q) := r]
            = take (unat (endq q) - unat (start q)) (drop (unat (start q)) (routines q)) @ [r]"
            using l by (rule list_update_last)
          then show ?thesis using d by simp
        qed
        then show ?thesis using le nle n0 by (simp add: q_list_def q'_def)
      next
        case nowrap: False
        then have n1: "unat next1 = unat (endq q) + 1" using n1u by simp
        show ?thesis
        proof (cases "start q \<le> endq q")
          case True
          show ?thesis unfolding q'_def
            by (rule q_list_snoc_linear[where s="start q" and e="endq q"])
               (use True n1 lt len in \<open>simp_all add: word_le_nat_alt\<close>)
        next
          case gt: False
          then have g: "unat (endq q) < unat (start q)" by (simp add: word_le_nat_alt)
          have ns: "unat next1 \<noteq> unat (start q)" using nf by (simp add: word_unat_eq_iff)
          then have gt': "\<not> start q \<le> next1" using n1 g by (simp add: word_le_nat_alt)
          have "drop (unat (start q)) ((routines q)[unat (endq q) := r]) = drop (unat (start q)) (routines q)"
            using g by simp
          moreover have "take (Suc (unat (endq q))) ((routines q)[unat (endq q) := r]) = take (unat (endq q)) (routines q) @ [r]"
            using lt len by (simp add: take_Suc_conv_app_nth)
          ultimately show ?thesis using gt gt' n1 by (simp add: q_list_def q'_def)
        qed
      qed
      moreover have "cap q' = cap q" by (simp add: q'_def)
      ultimately show ?thesis using p i' notfull by auto
    qed
  qed
qed

lemma q_caps_unfold:
  "q_caps = [0, 10, 20, 40, 80, 160, 320, 640, 1280, 2560, 5120, 10240, 20480, 40960,
     81920, 163840, 327680, 655360, 1310720, 2621440, 5242880, 10485760, 20971520, 41943040,
     83886080, 167772160, 335544320, 671088640, 1342177280, 2684354560]"
  by code_simp

lemma cap_ok_double:
  fixes c :: "32 word"
  assumes "c \<in> set q_caps" "unat c < 2684354560"
  shows "unat c < 2 ^ 31 \<and> (if unat c < 5 then unat c = 0 else 10 \<le> unat c)
     \<and> (\<forall>c'. unat c' = (if unat c < 5 then 10 else 2 * unat c) \<longrightarrow> c' \<in> set q_caps \<and> c \<le> c')"
  using assms unfolding q_caps_unfold
  by (auto simp: word_le_nat_alt word_unat_eq_iff)

lemma push_cap_ok:
  assumes inv: "q_inv q" and ok: "cap_ok q" and n: "length (q_list q) \<le> Q_MAX"
  shows "\<exists>q'. coroutines_push q r = Inr q' \<and> q_inv q' \<and> cap_ok q' \<and>
     q_list q' = q_list q @ [r] \<and> cap q \<le> cap q' \<and>
     (cap q' = cap q \<or> unat (cap q') = max 10 (2 * unat (cap q)))"
proof (cases "length (q_list q) + 1 < unat (cap q)")
  case True
  then obtain q' where "coroutines_push q r = Inr q'" "q_inv q'" "q_list q' = q_list q @ [r]" "cap q' = cap q"
    using push_correct[OF inv, of r] by auto
  then show ?thesis using ok by (auto simp: cap_ok_def)
next
  case False
  then have "unat (cap q) < 2684354560" using n by (simp add: Q_MAX_def)
  from cap_ok_double[OF ok[unfolded cap_ok_def] this]
  have small: "unat (cap q) < 2 ^ 31"
    and z: "if unat (cap q) < 5 then unat (cap q) = 0 else 10 \<le> unat (cap q)"
    and nxt: "\<And>c'. unat c' = (if unat (cap q) < 5 then 10 else 2 * unat (cap q)) \<Longrightarrow> c' \<in> set q_caps \<and> cap q \<le> c'"
    by blast+
  obtain q' where p: "coroutines_push q r = Inr q'" "q_inv q'" "q_list q' = q_list q @ [r]"
    and c: "unat (cap q') = (if unat (cap q) < 5 then 10 else 2 * unat (cap q))"
    using push_correct[OF inv, of r] small False by auto
  have "unat (cap q') = max 10 (2 * unat (cap q))" using c z by (auto split: if_splits)
  then show ?thesis using p nxt[OF c] by (auto simp: cap_ok_def)
qed

lemma pop_total:
  assumes "q_inv q"
  shows "\<exists>out q'. coroutines_pop q = Inr (out, q') \<and> q_inv q' \<and> cap q' = cap q \<and>
     (case q_list q of [] \<Rightarrow> out = None \<and> q' = q | x # xs \<Rightarrow> out = Some x \<and> q_list q' = xs)"
proof (cases "q_list q")
  case Nil
  then show ?thesis using pop_empty[OF assms] assms by simp
next
  case (Cons x xs)
  then show ?thesis using pop_nonempty[OF assms Cons] by auto
qed

lemma run_ops_refines:
  assumes "q_inv q" "cap_ok q" "fifo_peak (q_list q) ops \<le> Q_MAX"
  shows "\<exists>q' outs. run_ops q ops = Inr (q', outs) \<and> q_inv q' \<and> cap_ok q' \<and>
     fifo_run (q_list q) ops = (q_list q', outs) \<and> cap q \<le> cap q'"
  using assms
proof (induction ops arbitrary: q)
  case Nil
  then show ?case by simp
next
  case (Cons a ops)
  show ?case
  proof (cases a)
    case (Push r)
    with Cons.prems have n: "length (q_list q) \<le> Q_MAX" and pk: "fifo_peak (q_list q @ [r]) ops \<le> Q_MAX"
      by simp_all
    from push_cap_ok[OF Cons.prems(1,2) n, of r] obtain q1 where
      p: "coroutines_push q r = Inr q1" "q_inv q1" "cap_ok q1" "q_list q1 = q_list q @ [r]" "cap q \<le> cap q1"
      by blast
    from Cons.IH[OF p(2,3)] pk p(4) obtain q' outs where
      "run_ops q1 ops = Inr (q', outs)" "q_inv q'" "cap_ok q'"
      "fifo_run (q_list q1) ops = (q_list q', outs)" "cap q1 \<le> cap q'" by auto
    then show ?thesis using Push p by auto
  next
    case Pop
    from pop_total[OF Cons.prems(1)] obtain out q1 where
      p: "coroutines_pop q = Inr (out, q1)" "q_inv q1" "cap q1 = cap q"
      and c: "case q_list q of [] \<Rightarrow> out = None \<and> q1 = q | x # xs \<Rightarrow> out = Some x \<and> q_list q1 = xs"
      by blast
    have l1: "q_list q1 = tl (q_list q)" using c by (auto split: list.splits)
    have ok1: "cap_ok q1" using p(3) Cons.prems(2) by (simp add: cap_ok_def)
    have pk: "fifo_peak (q_list q1) ops \<le> Q_MAX" using Cons.prems(3) Pop l1 by simp
    from Cons.IH[OF p(2) ok1 pk] obtain q' outs where
      r: "run_ops q1 ops = Inr (q', outs)" "q_inv q'" "cap_ok q'"
      "fifo_run (q_list q1) ops = (q_list q', outs)" "cap q1 \<le> cap q'" by auto
    show ?thesis
    proof (cases "q_list q")
      case Nil
      then show ?thesis using Pop p r c l1 by auto
    next
      case (Cons x xs)
      then show ?thesis using Pop p r c l1 by auto
    qed
  qed
qed

lemma fifo_run_order:
  "fifo_run xs ops = (ys, outs) \<Longrightarrow> xs @ pushed ops = popped outs @ ys"
proof (induction xs ops arbitrary: ys outs rule: fifo_run.induct)
  case (1 xs)
  then show ?case by simp
next
  case (2 xs r ops)
  then show ?case by simp
next
  case (3 ops)
  then show ?case by (auto split: prod.splits)
next
  case (4 x xs ops)
  then show ?case by (auto split: prod.splits)
qed

lemma zero_inv: "q_inv coroutines_zero" "cap_ok coroutines_zero" "q_list coroutines_zero = []"
  by (simp_all add: q_inv_def cap_ok_def coroutines_zero_def q_list_def q_caps_def)

lemma replicate_update_same: "(replicate n x)[i := x] = replicate n x"
  by (induction n arbitrary: i) (auto split: nat.splits)

lemma fill_step:
  assumes f: "q_filled q c e" and lt: "e + 1 < c"
  shows "\<exists>q'. coroutines_push q 0 = Inr q' \<and> q_filled q' c (e + 1)"
proof -
  have r: "routines q = replicate c 0" and s: "start q = 0" and e: "unat (endq q) = e"
    and c: "unat (cap q) = c"
    using f by (simp_all add: q_filled_def)
  have e1: "unat (endq q + 1) = e + 1"
    using e c lt unat_lt32[of "cap q"] by (simp add: unat_word_ariths)
  have a: "\<not> cap q \<le> endq q + 1" using e1 c lt by (simp add: word_le_nat_alt)
  have b: "endq q + 1 \<noteq> start q" using e1 s by (auto simp: word_unat_eq_iff)
  have "coroutines_push q 0 = Inr (q\<lparr>routines := replicate c 0, endq := endq q + 1\<rparr>)"
    using a b r e lt by (simp add: coroutines_push_def Let_def replicate_update_same)
  then show ?thesis using s e1 c by (simp add: q_filled_def)
qed

lemma fill_run:
  assumes "q_filled q c e" "e + k < c"
  shows "\<exists>q'. run_ops q (replicate k (Push 0)) = Inr (q', []) \<and> q_filled q' c (e + k)"
  using assms
proof (induction k arbitrary: q e)
  case 0
  then show ?case by simp
next
  case (Suc k)
  from fill_step[OF Suc.prems(1)] Suc.prems(2) obtain q1 where
    p: "coroutines_push q 0 = Inr q1" "q_filled q1 c (e + 1)" by auto
  from Suc.IH[OF p(2)] Suc.prems(2) obtain q' where
    "run_ops q1 (replicate k (Push 0)) = Inr (q', [])" "q_filled q' c (e + 1 + k)" by auto
  then show ?case using p by simp
qed

lemma grow_step:
  assumes f: "q_filled q c (c - 1)" and c5: "5 \<le> c" and c2: "2 * c < 4294967296"
  shows "\<exists>q'. coroutines_push q 0 = Inr q' \<and> q_filled q' (2 * c) c"
proof -
  have r: "routines q = replicate c 0" and s: "start q = 0" and e: "unat (endq q) = c - 1"
    and c: "unat (cap q) = c"
    using f by (simp_all add: q_filled_def)
  have e1: "endq q + 1 = cap q"
    using e c c5 c2 by (simp add: word_unat_eq_iff unat_word_ariths)
  have nc: "unat (cap q * 2) = 2 * c" using c c2 by (simp add: unat_word_ariths)
  have n10: "\<not> cap q * 2 < 10" using nc c5 by (simp add: word_less_nat_alt)
  have nlt: "\<not> endq q < start q" using s by simp
  have md: "(endq q + 1) mod (cap q * 2) = cap q"
    using e1 nc c c5 by (simp add: word_unat_eq_iff unat_mod)
  have g: "coroutines_grow q
      = Inr (q\<lparr>routines := replicate (2 * c) 0, endq := endq q, cap := cap q * 2\<rparr>, cap q)"
    using nc n10 md nlt r c5
    by (simp add: coroutines_grow_def Let_def realloc_array_def replicate_add[symmetric])
  have "coroutines_push q 0
      = Inr (q\<lparr>routines := replicate (2 * c) 0, endq := cap q, cap := cap q * 2\<rparr>)"
    using g e1 s e c5 by (simp add: coroutines_push_def Let_def replicate_update_same)
  then show ?thesis using s c nc by (simp add: q_filled_def)
qed

lemma zero_step: "\<exists>q'. coroutines_push coroutines_zero 0 = Inr q' \<and> q_filled q' 10 1"
  by (simp add: coroutines_push_def coroutines_grow_def coroutines_zero_def Let_def
      realloc_array_def q_filled_def replicate_update_same)

lemma run_ops_pushes_append:
  assumes "run_ops q (replicate a (Push 0)) = Inr (q', [])"
  shows "run_ops q (replicate a (Push 0) @ ops) = run_ops q' ops"
  using assms
proof (induction a arbitrary: q)
  case 0
  then show ?case by simp
next
  case (Suc a)
  then show ?case by (auto split: sum.splits)
qed

lemma double_run:
  assumes f: "q_filled q c (c - 1)" and c5: "5 \<le> c" and c2: "2 * c < 4294967296"
  shows "\<exists>q'. run_ops q (replicate c (Push 0)) = Inr (q', []) \<and> q_filled q' (2 * c) (2 * c - 1)"
proof -
  from grow_step[OF f c5 c2] obtain q1 where
    p: "coroutines_push q 0 = Inr q1" "q_filled q1 (2 * c) c" by blast
  have "c + (c - 1) < 2 * c" using c5 by simp
  from fill_run[OF p(2) this] obtain q' where
    r: "run_ops q1 (replicate (c - 1) (Push 0)) = Inr (q', [])" "q_filled q' (2 * c) (c + (c - 1))" by blast
  have "replicate c (Push 0) = Push 0 # replicate (c - 1) (Push 0)"
    using c5 by (cases c) simp_all
  moreover have "c + (c - 1) = 2 * c - 1" using c5 by simp
  ultimately show ?thesis using p r by simp
qed

lemma chain:
  assumes "j \<le> 28"
  shows "\<exists>q'. run_ops coroutines_zero (replicate (10 * 2 ^ j - 1) (Push 0)) = Inr (q', [])
     \<and> q_filled q' (10 * 2 ^ j) (10 * 2 ^ j - 1)"
  using assms
proof (induction j)
  case 0
  from zero_step obtain q1 where p: "coroutines_push coroutines_zero 0 = Inr q1" "q_filled q1 10 1" by blast
  from fill_run[OF p(2), of 8] obtain q' where
    "run_ops q1 (replicate 8 (Push 0)) = Inr (q', [])" "q_filled q' 10 9" by auto
  moreover have "replicate 9 (Push 0) = Push 0 # replicate 8 (Push 0)"
    by (simp add: numeral_eq_Suc)
  ultimately show ?case using p by simp
next
  case (Suc j)
  define c :: nat where "c = 10 * 2 ^ j"
  have "(2::nat) ^ j \<le> 2 ^ 27" using Suc.prems by (intro power_increasing) simp_all
  then have cb: "5 \<le> c" "2 * c < 4294967296" by (simp_all add: c_def)
  from Suc obtain q1 where
    a: "run_ops coroutines_zero (replicate (c - 1) (Push 0)) = Inr (q1, [])" "q_filled q1 c (c - 1)"
    by (auto simp: c_def)
  from double_run[OF a(2) cb] obtain q' where
    b: "run_ops q1 (replicate c (Push 0)) = Inr (q', [])" "q_filled q' (2 * c) (2 * c - 1)" by blast
  have "replicate (2 * c - 1) (Push 0) = replicate (c - 1) (Push 0) @ replicate c (Push 0)"
    using cb by (simp add: replicate_add[symmetric])
  then have "run_ops coroutines_zero (replicate (2 * c - 1) (Push 0)) = Inr (q', [])"
    using run_ops_pushes_append[OF a(1)] b(1) by simp
  then show ?case using b(2) by (auto simp: c_def)
qed

lemma overflow_push:
  assumes f: "q_filled q 2684354560 2684354559"
  shows "coroutines_push q r = Inl OutOfBounds"
    "\<exists>q' nxt. coroutines_grow q = Inr (q', nxt) \<and> cap q' = 1073741824"
proof -
  have r: "routines q = replicate 2684354560 0" and s: "start q = 0" and e: "endq q = 2684354559"
    and c: "cap q = 2684354560"
    using f by (simp_all add: q_filled_def word_unat_eq_iff)
  show "coroutines_push q r = Inl OutOfBounds"
    using r s e c
    by (simp add: coroutines_push_def coroutines_grow_def Let_def realloc_array_def)
  show "\<exists>q' nxt. coroutines_grow q = Inr (q', nxt) \<and> cap q' = 1073741824"
    using r s e c
    by (simp add: coroutines_grow_def Let_def realloc_array_def)
qed

lemma fifo_run_pushes: "fifo_run xs (replicate n (Push r)) = (xs @ replicate n r, [])"
proof (induction n arbitrary: xs)
  case 0
  then show ?case by simp
next
  case (Suc n)
  then show ?case by (simp add: replicate_app_Cons_same)
qed

lemma q_filled_eq:
  assumes "q_filled q c e"
  shows "q = \<lparr>routines = replicate c 0, start = 0, endq = of_nat e, cap = of_nat c\<rparr>"
  using assms by (cases q) (auto simp: q_filled_def)

section \<open>Preparing a dispatch: lemmas\<close>

lemma malloc_align_Inr:
  assumes "malloc_align h a n = Inr (p, h')"
  shows "a dvd p" "blocks h' p = Some (replicate n 0)" "0 < a \<Longrightarrow> p \<noteq> NULL"
    "\<And>x. x \<noteq> p \<Longrightarrow> blocks h' x = blocks h x"
proof -
  from assms have pm: "posix_memalign h a n = (0, p, h')"
    by (auto simp: malloc_align_def split: prod.splits if_splits)
  define p0 where "p0 = ((max (brk h) 1 + a - 1) div a) * a"
  from pm have p: "p = p0" and h': "h' = h\<lparr>blocks := (blocks h)(p0 \<mapsto> replicate n 0), brk := p0 + max n 1\<rparr>"
    by (auto simp: posix_memalign_def Let_def p0_def split: if_splits)
  show "a dvd p" using p by (simp add: p0_def)
  show "blocks h' p = Some (replicate n 0)" using p h' by simp
  show "\<And>x. x \<noteq> p \<Longrightarrow> blocks h' x = blocks h x" using p h' by simp
  show "p \<noteq> NULL" if "0 < a"
  proof -
    have "a \<le> max (brk h) 1 + a - 1" by simp
    then have "1 \<le> (max (brk h) 1 + a - 1) div a"
      using that by (metis div_le_mono div_self less_numeral_extra(3))
    then show ?thesis using p that by (simp add: p0_def)
  qed
qed

lemma prepare_storage_Inr:
  assumes "prepare_storage ctx h info = Inr (ctx1, h1)"
  shows "if size_t_of_int (desc_set_size ctx) < info_desc_set_size info
         then descriptor_set ctx1 \<noteq> NULL \<and> 16 dvd descriptor_set ctx1 \<and>
              blocks h1 (descriptor_set ctx1) = Some (replicate (unat (info_desc_set_size info)) 0) \<and>
              desc_set_size ctx1 = int_of_size_t (info_desc_set_size info) \<and>
              ctx1 = ctx\<lparr>descriptor_set := descriptor_set ctx1,
                         desc_set_size := int_of_size_t (info_desc_set_size info)\<rparr>
         else ctx1 = ctx \<and> h1 = h"
    and "data ctx1 = data ctx"
proof -
  show "data ctx1 = data ctx"
    using assms by (auto simp: prepare_storage_def split: sum.splits if_splits)
  show "if size_t_of_int (desc_set_size ctx) < info_desc_set_size info
         then descriptor_set ctx1 \<noteq> NULL \<and> 16 dvd descriptor_set ctx1 \<and>
              blocks h1 (descriptor_set ctx1) = Some (replicate (unat (info_desc_set_size info)) 0) \<and>
              desc_set_size ctx1 = int_of_size_t (info_desc_set_size info) \<and>
              ctx1 = ctx\<lparr>descriptor_set := descriptor_set ctx1,
                         desc_set_size := int_of_size_t (info_desc_set_size info)\<rparr>
         else ctx1 = ctx \<and> h1 = h"
  proof (cases "size_t_of_int (desc_set_size ctx) < info_desc_set_size info")
    case False
    then show ?thesis using assms by (simp add: prepare_storage_def)
  next
    case True
    from assms True obtain h0 p where
      m: "malloc_align h0 16 (unat (info_desc_set_size info)) = Inr (p, h1)"
      and c: "ctx1 = ctx\<lparr>descriptor_set := p, desc_set_size := int_of_size_t (info_desc_set_size info)\<rparr>"
      by (auto simp: prepare_storage_def split: sum.splits if_splits)
    from malloc_align_Inr[OF m] c True show ?thesis by simp
  qed
qed

lemma int_of_size_t_31:
  assumes "n < 2147483648"
  shows "int_of_size_t n = uint n" "size_t_of_int (int_of_size_t n) = n"
proof -
  have u: "uint n < 2147483648" using assms by (simp add: word_less_def)
  have "size_t_of_int (uint n) = n" by (simp add: size_t_of_int_def)
  moreover have "int_of_size_t (size_t_of_int (uint n)) = uint n"
    using u by (intro int_of_size_t_small) simp_all
  ultimately show "int_of_size_t n = uint n" by simp
  then show "size_t_of_int (int_of_size_t n) = n" by (simp add: size_t_of_int_def)
qed

lemma size_t_of_int_less_iff:
  assumes "in_int d" "n < 2147483648"
  shows "size_t_of_int d < n \<longleftrightarrow> 0 \<le> d \<and> d < uint n"
proof (cases "0 \<le> d")
  case True
  then have "uint (size_t_of_int d) = d"
    using assms(1) by (simp add: size_t_of_int_def uint_word_of_int in_int_iff)
  then show ?thesis using True by (simp add: word_less_def)
next
  case False
  then have d: "- 2147483648 \<le> d" "d < 0" using assms(1) by (simp_all add: in_int_iff)
  have "uint (size_t_of_int d) = d mod 2 ^ 64"
    by (simp add: size_t_of_int_def uint_word_of_int)
  also have "\<dots> = (d + 2 ^ 64) mod 2 ^ 64" by simp
  also have "\<dots> = d + 2 ^ 64"
    using d by (intro mod_pos_pos_trivial) simp_all
  finally have "uint (size_t_of_int d) = d + 2 ^ 64" .
  moreover have "uint n < 2147483648" using assms(2) by (simp add: word_less_def)
  ultimately have "\<not> size_t_of_int d < n" using d by (simp add: word_less_def)
  then show ?thesis using d by auto
qed

lemma c_memcpy_Inr:
  assumes "c_memcpy h dst src n = Inr h'"
  shows "if n = 0 then h' = h
         else dst \<noteq> NULL \<and> (\<exists>old. blocks h dst = Some old \<and> n \<le> length old \<and> n \<le> length src \<and>
                h' = h\<lparr>blocks := (blocks h)(dst \<mapsto> take n src @ drop n old)\<rparr>)"
  using assms by (auto simp: c_memcpy_def split: if_splits option.splits)

lemma prepare_dispatch_Inr:
  assumes "prepare_dispatch ctx h T info ds gx gy gz = Inr (ctx', h')"
  obtains ctx1 h1 ipw spw where
     "prepare_storage ctx h info = Inr (ctx1, h1)"
     "c_memcpy h1 (descriptor_set ctx1) ds (unat (info_desc_set_size info)) = Inr h'"
     "subgroup_counts info = Inr (ipw, spw)"
     "descriptor_set ctx' = descriptor_set ctx1" "desc_set_size ctx' = desc_set_size ctx1"
     "has_cbarriers ctx' = info_has_cbarriers info" "routine_begin ctx' = info_begin info"
     "routine_await ctx' = info_await info" "routine_destroy ctx' = info_destroy info"
     "nthreads ctx' = T" "memory_size ctx' = min_memory_size info"
     "data ctx' = (data ctx1)
        \<lparr>workgroup_size := (workgroup_size (data ctx1))
           (0 := uint_of_int (workgroup_size_x info),
            1 := uint_of_int (workgroup_size_y info),
            2 := uint_of_int (workgroup_size_z info)),
         num_workgroups := (num_workgroups (data ctx1))
           (0 := uint_of_int gx, 1 := uint_of_int gy, 2 := uint_of_int gz),
         invocations_per_subgroup := uint_of_int SIMD_WIDTH,
         invocations_per_workgroup := uint_of_int ipw,
         subgroups_per_workgroup := uint_of_int spw,
         descriptor_sets := (descriptor_sets (data ctx1))(0 := descriptor_set ctx1)\<rparr>"
  using assms
  by (auto simp: prepare_dispatch_def split: sum.splits prod.splits)

lemma prepare_dispatch_contents:
  fixes ctx :: "'w dispatch_context"
  assumes "prepare_dispatch ctx h T info ds gx gy gz = Inr (ctx', h')"
    and "0 < unat (info_desc_set_size info)"
  shows "\<exists>b. blocks h' (descriptor_set ctx') = Some b \<and>
     unat (info_desc_set_size info) \<le> length b \<and>
     unat (info_desc_set_size info) \<le> length ds \<and>
     take (unat (info_desc_set_size info)) b = take (unat (info_desc_set_size info)) ds \<and>
     descriptor_set ctx' \<noteq> NULL"
proof -
  from assms(1) obtain ctx1 :: "'w dispatch_context" and h1 where
    m: "c_memcpy h1 (descriptor_set ctx1) ds (unat (info_desc_set_size info)) = Inr h'"
    and p: "descriptor_set ctx' = descriptor_set ctx1" by (rule prepare_dispatch_Inr)
  from c_memcpy_Inr[OF m] assms(2) p show ?thesis by auto
qed

lemma prepare_storage_again:
  fixes ctx :: "'w dispatch_context"
  assumes st: "prepare_storage ctx h info = Inr (ctx1, h1)"
    and no: "\<not> size_t_of_int (int_of_size_t (info_desc_set_size info)) < info_desc_set_size info"
  shows "\<not> size_t_of_int (desc_set_size ctx1) < info_desc_set_size info"
  using prepare_storage_Inr(1)[OF st] no by (auto split: if_splits)

lemma prepare_dispatch_fields_eq:
  fixes ctx1 ctx2 ctx3 :: "'w dispatch_context"
  assumes a: "prepare_dispatch ctx h T info ds gx gy gz = Inr (ctx1, h1)"
    and b: "prepare_dispatch ctx1 h1 T info ds gx gy gz = Inr (ctx2, h2)"
  shows "desc_set_size ctx2 = desc_set_size ctx1" "nthreads ctx2 = nthreads ctx1"
    "has_cbarriers ctx2 = has_cbarriers ctx1" "memory_size ctx2 = memory_size ctx1"
    "routine_begin ctx2 = routine_begin ctx1" "routine_await ctx2 = routine_await ctx1"
    "routine_destroy ctx2 = routine_destroy ctx1"
    "data ctx2 = (data ctx1)\<lparr>descriptor_sets := (descriptor_sets (data ctx1))(0 := descriptor_set ctx2)\<rparr>"
    "descriptor_sets (data ctx1) 0 = descriptor_set ctx1"
proof -
  from a obtain c0 :: "'w dispatch_context" and g0 ipw spw where
    a1: "prepare_storage ctx h info = Inr (c0, g0)"
    and a3: "subgroup_counts info = Inr (ipw, spw)"
    and a4: "descriptor_set ctx1 = descriptor_set c0" "desc_set_size ctx1 = desc_set_size c0"
      "has_cbarriers ctx1 = info_has_cbarriers info" "routine_begin ctx1 = info_begin info"
      "routine_await ctx1 = info_await info" "routine_destroy ctx1 = info_destroy info"
      "nthreads ctx1 = T" "memory_size ctx1 = min_memory_size info"
    and a5: "data ctx1 = (data c0)
        \<lparr>workgroup_size := (workgroup_size (data c0))
           (0 := uint_of_int (workgroup_size_x info),
            1 := uint_of_int (workgroup_size_y info),
            2 := uint_of_int (workgroup_size_z info)),
         num_workgroups := (num_workgroups (data c0))
           (0 := uint_of_int gx, 1 := uint_of_int gy, 2 := uint_of_int gz),
         invocations_per_subgroup := uint_of_int SIMD_WIDTH,
         invocations_per_workgroup := uint_of_int ipw,
         subgroups_per_workgroup := uint_of_int spw,
         descriptor_sets := (descriptor_sets (data c0))(0 := descriptor_set c0)\<rparr>"
    by (rule prepare_dispatch_Inr)
  from b obtain c1 :: "'w dispatch_context" and g1 ipw' spw' where
    b1: "prepare_storage ctx1 h1 info = Inr (c1, g1)"
    and b3: "subgroup_counts info = Inr (ipw', spw')"
    and b4: "descriptor_set ctx2 = descriptor_set c1" "desc_set_size ctx2 = desc_set_size c1"
      "has_cbarriers ctx2 = info_has_cbarriers info" "routine_begin ctx2 = info_begin info"
      "routine_await ctx2 = info_await info" "routine_destroy ctx2 = info_destroy info"
      "nthreads ctx2 = T" "memory_size ctx2 = min_memory_size info"
    and b5: "data ctx2 = (data c1)
        \<lparr>workgroup_size := (workgroup_size (data c1))
           (0 := uint_of_int (workgroup_size_x info),
            1 := uint_of_int (workgroup_size_y info),
            2 := uint_of_int (workgroup_size_z info)),
         num_workgroups := (num_workgroups (data c1))
           (0 := uint_of_int gx, 1 := uint_of_int gy, 2 := uint_of_int gz),
         invocations_per_subgroup := uint_of_int SIMD_WIDTH,
         invocations_per_workgroup := uint_of_int ipw',
         subgroups_per_workgroup := uint_of_int spw',
         descriptor_sets := (descriptor_sets (data c1))(0 := descriptor_set c1)\<rparr>"
    by (rule prepare_dispatch_Inr)
  have sp: "ipw' = ipw" "spw' = spw" using a3 b3 by simp_all
  have d1: "data c1 = data ctx1" by (rule prepare_storage_Inr(2)[OF b1])
  have s1: "desc_set_size c1 = desc_set_size ctx1"
  proof (cases "size_t_of_int (desc_set_size ctx1) < info_desc_set_size info")
    case False
    then show ?thesis using prepare_storage_Inr(1)[OF b1] by simp
  next
    case True
    then have x: "desc_set_size c1 = int_of_size_t (info_desc_set_size info)"
      using prepare_storage_Inr(1)[OF b1] by simp
    have "size_t_of_int (desc_set_size ctx) < info_desc_set_size info"
    proof (rule ccontr)
      assume "\<not> size_t_of_int (desc_set_size ctx) < info_desc_set_size info"
      then have "c0 = ctx" using prepare_storage_Inr(1)[OF a1] by simp
      then show False using True a4 \<open>\<not> size_t_of_int (desc_set_size ctx) < info_desc_set_size info\<close> by simp
    qed
    then have "desc_set_size c0 = int_of_size_t (info_desc_set_size info)"
      using prepare_storage_Inr(1)[OF a1] by simp
    then show ?thesis using x a4 by simp
  qed
  show "desc_set_size ctx2 = desc_set_size ctx1" using b4 s1 by simp
  show "nthreads ctx2 = nthreads ctx1" using a4 b4 by simp
  show "has_cbarriers ctx2 = has_cbarriers ctx1" using a4 b4 by simp
  show "memory_size ctx2 = memory_size ctx1" using a4 b4 by simp
  show "routine_begin ctx2 = routine_begin ctx1" using a4 b4 by simp
  show "routine_await ctx2 = routine_await ctx1" using a4 b4 by simp
  show "routine_destroy ctx2 = routine_destroy ctx1" using a4 b4 by simp
  show "descriptor_sets (data ctx1) 0 = descriptor_set ctx1" using a5 a4 by simp
  show "data ctx2 = (data ctx1)\<lparr>descriptor_sets := (descriptor_sets (data ctx1))(0 := descriptor_set ctx2)\<rparr>"
    unfolding b5 d1 sp b4(1)[symmetric] unfolding a5 by simp
qed

lemma prepare_dispatch_block:
  fixes ctx :: "'w dispatch_context"
  assumes a: "prepare_dispatch ctx h T info ds gx gy gz = Inr (ctx1, h1)"
    and n: "0 < unat (info_desc_set_size info)"
  shows "\<exists>b. blocks h1 (descriptor_set ctx1) = Some b \<and>
     unat (info_desc_set_size info) \<le> length ds \<and> unat (info_desc_set_size info) \<le> length b \<and>
     take (unat (info_desc_set_size info)) b = take (unat (info_desc_set_size info)) ds \<and>
     (size_t_of_int (desc_set_size ctx) < info_desc_set_size info \<longrightarrow>
        length b = unat (info_desc_set_size info))"
proof -
  let ?n = "unat (info_desc_set_size info)"
  from a obtain c0 :: "'w dispatch_context" and g0 where
    a1: "prepare_storage ctx h info = Inr (c0, g0)"
    and a2: "c_memcpy g0 (descriptor_set c0) ds ?n = Inr h1"
    and a4: "descriptor_set ctx1 = descriptor_set c0"
    by (rule prepare_dispatch_Inr)
  from c_memcpy_Inr[OF a2] n obtain old where
    o: "blocks g0 (descriptor_set c0) = Some old" "?n \<le> length old" "?n \<le> length ds"
    "h1 = g0\<lparr>blocks := (blocks g0)(descriptor_set c0 \<mapsto> take ?n ds @ drop ?n old)\<rparr>"
    by auto
  have "size_t_of_int (desc_set_size ctx) < info_desc_set_size info \<longrightarrow> length old = ?n"
    using prepare_storage_Inr(1)[OF a1] o(1) by auto
  then show ?thesis using o a4 by auto
qed



lemmas eval_prepare =
  prepare_dispatch_def prepare_storage_def subgroup_counts_def c_memcpy_def
  malloc_align_def posix_memalign_def c_free_def alloc_dispatch_context_def heap_init_def
  info_sized_def size_t_of_int_def int_of_size_t_def int_mul_def int_add_def int_sub_def
  int_div_def int_result_def in_int_iff SIMD_WIDTH_def Let_def free_dispatch_context_def

lemma ensure_memory_Inr:
  assumes inv: "thread_inv t h" and run: "ensure_memory ctx t h = Inr (t1, h1)"
  shows "thread_inv t1 h1" "memory_size ctx \<le> thread_memory_size t1"
    "thread_memory_size t \<le> thread_memory_size t1"
    "thread_memory t1 \<noteq> thread_memory t \<Longrightarrow> thread_memory_size t < memory_size ctx"
    "thread_routines t1 = thread_routines t"
    "16 dvd thread_memory t1"
    "memory_size ctx \<noteq> 0 \<Longrightarrow> \<exists>b. blocks h1 (thread_memory t1) = Some b \<and> unat (memory_size ctx) \<le> length b"
proof -
  have "thread_inv t1 h1 \<and> memory_size ctx \<le> thread_memory_size t1 \<and>
    thread_memory_size t \<le> thread_memory_size t1 \<and>
    (thread_memory t1 \<noteq> thread_memory t \<longrightarrow> thread_memory_size t < memory_size ctx) \<and>
    thread_routines t1 = thread_routines t \<and> 16 dvd thread_memory t1 \<and>
    (memory_size ctx \<noteq> 0 \<longrightarrow> (\<exists>b. blocks h1 (thread_memory t1) = Some b \<and> unat (memory_size ctx) \<le> length b))"
  proof (cases "thread_memory_size t < memory_size ctx")
    case False
    then have e: "t1 = t" "h1 = h" using run by (simp_all add: ensure_memory_def)
    have "memory_size ctx \<le> thread_memory_size t" using False by simp
    moreover have "memory_size ctx \<noteq> 0 \<longrightarrow> (\<exists>b. blocks h (thread_memory t) = Some b \<and> unat (memory_size ctx) \<le> length b)"
      using inv calculation
      by (auto simp: thread_inv_def word_le_nat_alt unat_eq_zero split: if_splits option.splits)
    ultimately show ?thesis using inv e by (auto simp: thread_inv_def)
  next
    case True
    from run True obtain h0 p where
      m: "malloc_align h0 16 (unat (memory_size ctx)) = Inr (p, h1)"
      and c: "t1 = t\<lparr>thread_memory := p, thread_memory_size := memory_size ctx\<rparr>"
      by (auto simp: ensure_memory_def split: sum.splits if_splits)
    have p: "16 dvd p" "blocks h1 p = Some (replicate (unat (memory_size ctx)) 0)" "p \<noteq> NULL"
      using malloc_align_Inr[OF m] by simp_all
    show ?thesis using p c True by (auto simp: thread_inv_def)
  qed
  then show "thread_inv t1 h1" "memory_size ctx \<le> thread_memory_size t1"
    "thread_memory_size t \<le> thread_memory_size t1"
    "thread_memory t1 \<noteq> thread_memory t \<Longrightarrow> thread_memory_size t < memory_size ctx"
    "thread_routines t1 = thread_routines t"
    "16 dvd thread_memory t1"
    "memory_size ctx \<noteq> 0 \<Longrightarrow> \<exists>b. blocks h1 (thread_memory t1) = Some b \<and> unat (memory_size ctx) \<le> length b"
    by blast+
qed

section \<open>The dispatch loop: lemmas\<close>

lemma trace_append [simp]:
  "begun (a @ b) = begun a @ begun b"
  "destroyed (a @ b) = destroyed a @ destroyed b"
  "awaited (a @ b) = awaited a @ awaited b"
  "begin_calls (a @ b) = begin_calls a @ begin_calls b"
  "begin_mems (a @ b) = begin_mems a @ begin_mems b"
  "groups_of (a @ b) = groups_of a @ groups_of b"
  by (simp_all add: begun_def destroyed_def awaited_def begin_calls_def begin_mems_def groups_of_def)

lemma trace_Nil [simp]:
  "begun [] = []" "destroyed [] = []" "awaited [] = []" "begin_calls [] = []"
  "begin_mems [] = []" "groups_of [] = []"
  by (simp_all add: begun_def destroyed_def awaited_def begin_calls_def begin_mems_def groups_of_def)

lemma trace_Cons [simp]:
  "begun (e # es) = (case e of Begin x y z m f c r \<Rightarrow> [r] | _ \<Rightarrow> []) @ begun es"
  "destroyed (e # es) = (case e of Destroy r \<Rightarrow> [r] | _ \<Rightarrow> []) @ destroyed es"
  "awaited (e # es) = (case e of Await r res \<Rightarrow> [r] | _ \<Rightarrow> []) @ awaited es"
  "begin_calls (e # es) = (case e of Begin x y z m f c r \<Rightarrow> [(x, y, z, f, c)] | _ \<Rightarrow> []) @ begin_calls es"
  "begin_mems (e # es) = (case e of Begin x y z m f c r \<Rightarrow> [m] | _ \<Rightarrow> []) @ begin_mems es"
  "groups_of (e # es) = (case e of Workgroup i x y z \<Rightarrow> [(i, x, y, z)] | _ \<Rightarrow> []) @ groups_of es"
  by (simp_all add: begun_def destroyed_def awaited_def begin_calls_def begin_mems_def groups_of_def)

lemma push_full_big:
  assumes inv: "q_inv q" and full: "length (q_list q) + 1 = unat (cap q)"
    and big: "2 ^ 31 \<le> unat (cap q)"
  shows "\<exists>e. coroutines_push q r = Inl e"
proof -
  have c0: "cap q \<noteq> 0" using big by (auto simp: unat_eq_zero)
  have lt: "unat (start q) < unat (cap q)" "unat (endq q) < unat (cap q)"
    and len: "length (routines q) = unat (cap q)"
    using inv c0 by (simp_all add: q_inv_def word_less_nat_alt)
  have ql: "length (q_list q) = (if start q \<le> endq q then unat (endq q) - unat (start q)
      else unat (cap q) - unat (start q) + unat (endq q))" by (rule q_list_length[OF inv])
  have c32: "unat (cap q) < 4294967296" by (rule unat_lt32)
  define newcap :: "32 word" where "newcap = (if cap q * 2 < 10 then 10 else cap q * 2)"
  have n2: "unat (cap q * 2) = 2 * unat (cap q) - 4294967296"
  proof -
    have "unat (cap q * 2) = (unat (cap q) * 2) mod 4294967296" by (simp add: unat_word_ariths)
    also have "\<dots> = (unat (cap q) * 2 - 4294967296) mod 4294967296"
      using big by (simp add: le_mod_geq)
    also have "\<dots> = unat (cap q) * 2 - 4294967296" using c32 by simp
    finally show ?thesis by simp
  qed
  have nc: "unat newcap < unat (cap q)"
    using n2 c32 big by (auto simp: newcap_def word_less_nat_alt)
  define buf where "buf = realloc_array (routines q) (unat newcap)"
  have lb: "length buf = unat newcap" using nc len by (simp add: buf_def realloc_array_def)
  have e1: "unat (endq q + 1) = unat (endq q) + 1"
    using lt c32 by (simp add: unat_word_ariths)
  have n1: "(if cap q \<le> endq q + 1 then 0 else endq q + 1) = start q"
    using full ql lt e1
    by (auto simp: word_le_nat_alt word_unat_eq_iff split: if_splits)
  show ?thesis
  proof (cases "endq q < start q")
    case True
    show ?thesis
    proof (cases "endq q \<le> newcap - cap q")
      case False
      then show ?thesis using True n1
        by (simp add: coroutines_push_def coroutines_grow_def Let_def newcap_def[symmetric])
    next
      case le: True
      show ?thesis
      proof (cases "unat (endq q) = 0")
        case z: True
        then have "endq q + cap q = cap q" by (simp add: unat_eq_zero)
        then have "coroutines_grow q = Inr (q\<lparr>routines := buf, endq := cap q, cap := newcap\<rparr>, (cap q + 1) mod newcap)"
          using True le z
          by (simp add: coroutines_grow_def Let_def newcap_def[symmetric] buf_def[symmetric] memmove_array_def)
        then show ?thesis using n1 lb nc
          by (simp add: coroutines_push_def Let_def)
      next
        case nz: False
        have "length buf < unat (cap q) + unat (endq q)" using lb nc by simp
        then have "memmove_array buf (unat (cap q)) 0 (unat (endq q)) = Inl OutOfBounds"
          using nz by (simp add: memmove_array_def)
        then show ?thesis using True le n1
          by (simp add: coroutines_push_def coroutines_grow_def Let_def newcap_def[symmetric] buf_def[symmetric])
      qed
    qed
  next
    case False
    then have le: "start q \<le> endq q" by simp
    then have "unat (endq q) - unat (start q) + 1 = unat (cap q)" using full ql by simp
    then have e: "unat (endq q) = unat (cap q) - 1" using lt by simp
    have "coroutines_grow q = Inr (q\<lparr>routines := buf, endq := endq q, cap := newcap\<rparr>, (endq q + 1) mod newcap)"
      using False
      by (simp add: coroutines_grow_def Let_def newcap_def[symmetric] buf_def[symmetric])
    then show ?thesis using n1 lb nc e
      by (simp add: coroutines_push_def Let_def)
  qed
qed

lemma push_Inr:
  assumes inv: "q_inv q" and p: "coroutines_push q r = Inr q'"
  shows "q_inv q'" "q_list q' = q_list q @ [r]" "cap q \<le> cap q'"
    "length (q_list q) + 1 < unat (cap q) \<Longrightarrow> cap q' = cap q"
proof -
  have room: "length (q_list q) + 1 < unat (cap q) \<or> unat (cap q) < 2 ^ 31"
  proof (rule ccontr)
    assume n: "\<not> (length (q_list q) + 1 < unat (cap q) \<or> unat (cap q) < 2 ^ 31)"
    then have big: "2 ^ 31 \<le> unat (cap q)" by simp
    then have "cap q \<noteq> 0" by (auto simp: unat_eq_zero)
    then have "length (q_list q) < unat (cap q)" by (rule q_list_lt_cap[OF inv])
    with n have "length (q_list q) + 1 = unat (cap q)" by simp
    from push_full_big[OF inv this big, of r] p show False by simp
  qed
  from push_correct[OF inv room, of r] p have
    a: "q_inv q'" "q_list q' = q_list q @ [r]"
    and c: "if length (q_list q) + 1 < unat (cap q) then cap q' = cap q
      else unat (cap q') = (if unat (cap q) < 5 then 10 else 2 * unat (cap q))"
    by auto
  show "q_inv q'" "q_list q' = q_list q @ [r]" by (rule a)+
  show "length (q_list q) + 1 < unat (cap q) \<Longrightarrow> cap q' = cap q" using c by simp
  show "cap q \<le> cap q'" using c by (auto simp: word_le_nat_alt split: if_splits)
qed

lemma sum_list_left_decreases:
  fixes f f' :: "'a \<Rightarrow> nat"
  assumes "f' x < f x" "\<And>r. r \<noteq> x \<Longrightarrow> f' r \<le> f r"
  shows "sum_list (map f' (xs @ [x])) < sum_list (map f (x # xs))"
proof -
  have "\<And>r. f' r \<le> f r" using assms by (metis less_imp_le)
  then have "sum_list (map f' xs) \<le> sum_list (map f xs)" by (intro sum_list_mono) simp
  then show ?thesis using assms(1) by simp
qed

lemma finishing_step:
  assumes "finishing ctx left" "routine_await ctx = Some aw" "aw r w = (res, w')" "res \<noteq> 0"
  shows "left w' r < left w r" "\<And>r'. r' \<noteq> r \<Longrightarrow> left w' r' \<le> left w r'"
  using assms unfolding finishing_def by (fastforce split: prod.splits)+

lemma wf_lex_nat: "wf (less_than <*lex*> less_than)"
  by (intro wf_lex_prod wf_less_than)

lemma drain_total:
  fixes ctx :: "'w dispatch_context"
  assumes fin: "finishing ctx left" and ep: "has_entry_points ctx"
  shows "q_inv q \<Longrightarrow>
    \<exists>q' w' new. drain ctx (q, w, tr) = Some (Inr (q', w', tr @ new)) \<and> q_inv q' \<and>
      q_list q' = [] \<and> cap q' = cap q \<and>
      mset (destroyed new) = mset (q_list q) \<and> set (awaited new) \<subseteq> set (q_list q) \<and>
      begun new = [] \<and> begin_calls new = [] \<and> begin_mems new = [] \<and> groups_of new = [] \<and>
      (distinct (q_list q) \<longrightarrow> no_use_after_destroy new)"
proof (induction "(length (q_list q), sum_list (map (left w) (q_list q)))" arbitrary: q w tr
    rule: wf_induct_rule[OF wf_lex_nat])
  case (1 q w tr)
  from ep obtain aw de where aw: "routine_await ctx = Some aw" and de: "routine_destroy ctx = Some de"
    by (auto simp: has_entry_points_def)
  show ?case
  proof (cases "q_list q")
    case Nil
    then have "coroutines_pop q = Inr (None, q)" using pop_empty[OF "1.prems"] by simp
    then have "drain ctx (q, w, tr) = Some (Inr (q, w, tr @ []))"
      by (subst drain.simps) simp
    then show ?thesis using Nil "1.prems" by (intro exI[of _ q] exI[of _ w] exI[of _ "[]"]) simp
  next
    case (Cons x xs)
    from pop_nonempty[OF "1.prems" Cons] obtain q1 where
      p: "coroutines_pop q = Inr (Some x, q1)" "q_inv q1" "q_list q1 = xs" "cap q1 = cap q" by blast
    obtain res w1 where a: "aw x w = (res, w1)" by (cases "aw x w")
    show ?thesis
    proof (cases "res = 0")
      case True
      have less: "((length (q_list q1), sum_list (map (left (de x w1)) (q_list q1))),
          (length (q_list q), sum_list (map (left w) (q_list q)))) \<in> less_than <*lex*> less_than"
        using p(3) Cons by simp
      from "1.hyps"[OF less p(2), of "tr @ [Await x res, Destroy x]"] obtain q' w' new where
        r: "drain ctx (q1, de x w1, (tr @ [Await x res, Destroy x])) = Some (Inr (q', w', (tr @ [Await x res, Destroy x]) @ new))"
        "q_inv q'" "q_list q' = []" "cap q' = cap q1"
        "mset (destroyed new) = mset (q_list q1)" "set (awaited new) \<subseteq> set (q_list q1)"
        "begun new = []" "begin_calls new = []" "begin_mems new = []" "groups_of new = []"
        "distinct (q_list q1) \<longrightarrow> no_use_after_destroy new" by blast
      have "drain ctx (q, w, tr) = Some (Inr (q', w', tr @ ([Await x res, Destroy x] @ new)))"
        using p(1) aw de a True r(1) by (subst drain.simps) simp
      moreover have "distinct (q_list q) \<longrightarrow> no_use_after_destroy ([Await x res, Destroy x] @ new)"
        using r(5,6,11) p(3) Cons
        by (auto dest: mset_eq_setD)
      ultimately show ?thesis
        using r p Cons
        by (intro exI[of _ q'] exI[of _ w'] exI[of _ "[Await x res, Destroy x] @ new"]) auto
    next
      case False
      have "cap q \<noteq> 0" using "1.prems" Cons q_empty_iff[OF "1.prems"] by (auto simp: q_inv_def)
      then have "length (q_list q) < unat (cap q)" by (rule q_list_lt_cap[OF "1.prems"])
      then have room: "length (q_list q1) + 1 < unat (cap q1) \<or> unat (cap q1) < 2 ^ 31"
        using p Cons by simp
      from push_correct[OF p(2) room, of x] obtain q2 where
        ps: "coroutines_push q1 x = Inr q2" "q_inv q2" "q_list q2 = xs @ [x]" "cap q2 = cap q"
        using p Cons \<open>length (q_list q) < unat (cap q)\<close> by auto
      have "sum_list (map (left w1) (xs @ [x])) < sum_list (map (left w) (x # xs))"
        using finishing_step[OF fin aw a False] by (intro sum_list_left_decreases) simp_all
      then have less: "((length (q_list q2), sum_list (map (left w1) (q_list q2))),
          (length (q_list q), sum_list (map (left w) (q_list q)))) \<in> less_than <*lex*> less_than"
        using ps(3) Cons by simp
      from "1.hyps"[OF less ps(2), of "tr @ [Await x res]"] obtain q' w' new where
        r: "drain ctx (q2, w1, (tr @ [Await x res])) = Some (Inr (q', w', (tr @ [Await x res]) @ new))"
        "q_inv q'" "q_list q' = []" "cap q' = cap q2"
        "mset (destroyed new) = mset (q_list q2)" "set (awaited new) \<subseteq> set (q_list q2)"
        "begun new = []" "begin_calls new = []" "begin_mems new = []" "groups_of new = []"
        "distinct (q_list q2) \<longrightarrow> no_use_after_destroy new" by blast
      have "drain ctx (q, w, tr) = Some (Inr (q', w', tr @ ([Await x res] @ new)))"
        using p(1) aw a False ps(1) r(1) by (subst drain.simps) simp
      moreover have "distinct (q_list q) \<longrightarrow> no_use_after_destroy ([Await x res] @ new)"
        using r(11) ps(3) Cons by auto
      ultimately show ?thesis
        using r ps Cons
        by (intro exI[of _ q'] exI[of _ w'] exI[of _ "[Await x res] @ new"]) auto
    qed
  qed
qed

declare spawn_subgroups.simps [simp del]

lemma uint_of_int_less:
  assumes "0 \<le> k" "k \<le> 2147483647"
  shows "uint_of_int k < (s :: 32 word) \<longleftrightarrow> k < int (unat s)"
proof -
  have "unat (uint_of_int k) = nat k"
    using assms by (simp add: uint_of_int_def unat_eq_nat_uint uint_word_of_int)
  then show ?thesis using assms by (simp add: word_less_nat_alt nat_less_iff)
qed

lemma int_add_Inr: "int_add a b = Inr c \<longleftrightarrow> c = a + b \<and> in_int (a + b)"
  by (auto simp: int_add_def int_result_def)

lemma spawn_subgroups_Inr:
  fixes ctx :: "'w dispatch_context"
  shows "spawn_subgroups ctx x y z mem k (q, w, tr) = Inr (q', w', tr') \<Longrightarrow> q_inv q \<Longrightarrow>
     0 \<le> k \<Longrightarrow> k \<le> 2147483647 \<Longrightarrow>
     \<exists>new. tr' = tr @ new \<and> q_inv q' \<and> q_list q' = q_list q @ begun new \<and> cap q \<le> cap q' \<and>
       destroyed new = [] \<and> awaited new = [] \<and> groups_of new = [] \<and>
       begin_calls new = map (\<lambda>s. (x, y, z, s, 1)) [k..int (unat (subgroups_per_workgroup (data ctx))) - 1] \<and>
       set (begin_mems new) \<subseteq> {mem}"
proof (induction ctx x y z mem k "(q, w, tr)" arbitrary: q w tr rule: spawn_subgroups.induct)
  case (1 ctx x y z mem subgroup q w tr)
  let ?spw = "subgroups_per_workgroup (data ctx)"
  show ?case
  proof (cases "uint_of_int subgroup < ?spw")
    case False
    then have "spawn_subgroups ctx x y z mem subgroup (q, w, tr) = Inr (q, w, tr)"
      by (simp add: spawn_subgroups.simps[of ctx x y z mem subgroup q w tr])
    moreover have "\<not> subgroup < int (unat ?spw)"
      using False uint_of_int_less[OF "1.prems"(3,4)] by simp
    ultimately show ?thesis using "1.prems" by (intro exI[of _ "[]"]) simp
  next
    case True
    then have lt: "subgroup < int (unat ?spw)" using uint_of_int_less[OF "1.prems"(3,4)] by simp
    note un = spawn_subgroups.simps[of ctx x y z mem subgroup q w tr]
    from "1.prems"(1) True obtain b where b: "routine_begin ctx = Some b"
      by (auto simp: un split: option.splits)
    obtain r w1 where bw: "b (data ctx) x y z mem subgroup 1 w = (r, w1)"
      by (cases "b (data ctx) x y z mem subgroup 1 w")
    from "1.prems"(1) True b bw obtain q1 where p: "coroutines_push q r = Inr q1"
      by (auto simp: un split: sum.splits)
    from "1.prems"(1) True b bw p obtain s1 where s1: "int_add subgroup 1 = Inr s1"
      by (auto simp: un split: sum.splits)
    then have s1': "s1 = subgroup + 1" "in_int (subgroup + 1)" by (simp_all add: int_add_Inr)
    have rec: "spawn_subgroups ctx x y z mem s1 (q1, w1, tr @ [Begin x y z mem subgroup 1 r]) = Inr (q', w', tr')"
      using "1.prems"(1) True b bw p s1 by (simp add: un)
    note pi = push_Inr[OF "1.prems"(2) p]
    have "0 \<le> s1" "s1 \<le> 2147483647" using s1' "1.prems"(3) by (simp_all add: in_int_iff)
    from "1.hyps"[OF True b bw[symmetric] p s1 rec pi(1) this] obtain new where
      n: "tr' = (tr @ [Begin x y z mem subgroup 1 r]) @ new" "q_inv q'"
      "q_list q' = q_list q1 @ begun new" "cap q1 \<le> cap q'"
      "destroyed new = []" "awaited new = []" "groups_of new = []"
      "begin_calls new = map (\<lambda>s. (x, y, z, s, 1)) [s1..int (unat ?spw) - 1]"
      "set (begin_mems new) \<subseteq> {mem}" by blast
    have up: "[subgroup..int (unat ?spw) - 1] = subgroup # [s1..int (unat ?spw) - 1]"
      using lt s1' by (simp add: upto_rec1)
    show ?thesis
      using n pi up
      by (intro exI[of _ "Begin x y z mem subgroup 1 r # new"]) auto
  qed
qed

lemma spawn_subgroups_total:
  fixes ctx :: "'w dispatch_context"
  assumes b: "routine_begin ctx = Some b"
    and sp: "unat (subgroups_per_workgroup (data ctx)) < 2147483648"
  shows "q_inv q \<Longrightarrow> 0 \<le> k \<Longrightarrow> k \<le> int (unat (subgroups_per_workgroup (data ctx))) \<Longrightarrow>
     length (q_list q) + (unat (subgroups_per_workgroup (data ctx)) - nat k) < 2147483648 \<Longrightarrow>
     \<exists>q' w' tr'. spawn_subgroups ctx x y z mem k (q, w, tr) = Inr (q', w', tr')"
proof (induction "unat (subgroups_per_workgroup (data ctx)) - nat k" arbitrary: k q w tr)
  case 0
  let ?spw = "subgroups_per_workgroup (data ctx)"
  have k: "k \<le> 2147483647" using "0.prems"(3) sp by linarith
  have "\<not> k < int (unat ?spw)" using "0.hyps" "0.prems"(2) by linarith
  then have "\<not> uint_of_int k < ?spw" using uint_of_int_less[OF "0.prems"(2) k] by simp
  then show ?case by (simp add: spawn_subgroups.simps[of ctx x y z mem k q w tr])
next
  case (Suc n)
  let ?spw = "subgroups_per_workgroup (data ctx)"
  have lt: "k < int (unat ?spw)" using Suc.hyps(2) Suc.prems by linarith
  then have k: "k \<le> 2147483647" "in_int (k + 1)"
    using sp Suc.prems(2) unfolding in_int_iff by linarith+
  have c: "uint_of_int k < ?spw" using uint_of_int_less[OF Suc.prems(2) k(1)] lt by simp
  obtain r w1 where bw: "b (data ctx) x y z mem k 1 w = (r, w1)"
    by (cases "b (data ctx) x y z mem k 1 w")
  have "length (q_list q) + 1 < 2147483648" using Suc.prems(4) Suc.hyps(2)[symmetric] by simp
  then have room: "length (q_list q) + 1 < unat (cap q) \<or> unat (cap q) < 2 ^ 31" by auto
  from push_correct[OF Suc.prems(1) room, of r] obtain q1 where
    p: "coroutines_push q r = Inr q1" "q_inv q1" "q_list q1 = q_list q @ [r]" by blast
  have n: "n = unat ?spw - nat (k + 1)" using Suc.hyps(2) Suc.prems(2) by (simp add: nat_add_distrib)
  have "length (q_list q1) + (unat ?spw - nat (k + 1)) = length (q_list q) + (unat ?spw - nat k)"
    unfolding n[symmetric] Suc.hyps(2)[symmetric] p(3) by simp
  then have "length (q_list q1) + (unat ?spw - nat (k + 1)) < 2147483648"
    using Suc.prems(4) by simp
  moreover have "0 \<le> k + 1" "k + 1 \<le> int (unat ?spw)" using lt Suc.prems(2) by linarith+
  ultimately obtain q' w' tr' where
    "spawn_subgroups ctx x y z mem (k + 1) (q1, w1, tr @ [Begin x y z mem k 1 r]) = Inr (q', w', tr')"
    using Suc.hyps(1)[OF n p(2), of w1 "tr @ [Begin x y z mem k 1 r]"] by blast
  then show ?case
    using c b bw p(1) k(2)
    by (simp add: spawn_subgroups.simps[of ctx x y z mem k q w tr] int_add_def int_result_def)
qed

lemma int_of_uint_small:
  assumes "unat (s :: 32 word) < 2147483648"
  shows "int_of_uint s = int (unat s)"
proof -
  have "int (unat s) < 2147483648" using assms by linarith
  then have u: "uint s < 2147483648" "0 \<le> uint s" by simp_all
  have "sint s = signed_take_bit 31 (uint s)"
    using sint_sbintrunc'[of "uint s", where ?'a = 32] by simp
  also have "\<dots> = uint s"
  proof (rule signed_take_bit_int_eq_self)
    have "(0::int) \<le> 2 ^ 31" by simp
    then show "- (2 ^ 31) \<le> uint s" using uint_ge_0[of s] by linarith
    show "uint s < 2 ^ 31" using u by simp
  qed
  finally show ?thesis by (simp add: int_of_uint_def)
qed

lemma spawn_total:
  fixes ctx :: "'w dispatch_context"
  assumes ep: "has_entry_points ctx"
    and sp: "has_cbarriers ctx \<noteq> 0 \<longrightarrow> unat (subgroups_per_workgroup (data ctx)) < 2147483648"
    and inv: "q_inv q" and e: "q_list q = []"
  shows "\<exists>q' w' new. spawn ctx x y z mem (q, w, tr) = Inr (q', w', tr @ new) \<and> q_inv q' \<and>
     q_list q' = begun new \<and> cap q \<le> cap q' \<and>
     destroyed new = [] \<and> awaited new = [] \<and> groups_of new = [] \<and>
     begin_calls new =
       (if has_cbarriers ctx \<noteq> 0
        then map (\<lambda>s. (x, y, z, s, 1)) [0..int (unat (subgroups_per_workgroup (data ctx))) - 1]
        else [(x, y, z, 0, int_of_uint (subgroups_per_workgroup (data ctx)))]) \<and>
     set (begin_mems new) \<subseteq> {mem}"
proof (cases "has_cbarriers ctx \<noteq> 0")
  case True
  from ep obtain b where b: "routine_begin ctx = Some b" by (auto simp: has_entry_points_def)
  have sp': "unat (subgroups_per_workgroup (data ctx)) < 2147483648" using sp True by simp
  have "length (q_list q) + (unat (subgroups_per_workgroup (data ctx)) - nat 0) < 2147483648"
    using e sp' by simp
  from spawn_subgroups_total[OF b sp' inv _ _ this, of x y z mem w tr] obtain q' w' tr' where
    r: "spawn_subgroups ctx x y z mem 0 (q, w, tr) = Inr (q', w', tr')" by auto
  from spawn_subgroups_Inr[OF r inv] obtain new where
    "tr' = tr @ new" "q_inv q'" "q_list q' = q_list q @ begun new" "cap q \<le> cap q'"
    "destroyed new = []" "awaited new = []" "groups_of new = []"
    "begin_calls new = map (\<lambda>s. (x, y, z, s, 1)) [0..int (unat (subgroups_per_workgroup (data ctx))) - 1]"
    "set (begin_mems new) \<subseteq> {mem}" by auto
  then show ?thesis using r True e by (auto simp: spawn_def)
next
  case False
  from ep obtain b where b: "routine_begin ctx = Some b" by (auto simp: has_entry_points_def)
  let ?cnt = "int_of_uint (subgroups_per_workgroup (data ctx))"
  obtain r w1 where bw: "b (data ctx) x y z mem 0 ?cnt w = (r, w1)"
    by (cases "b (data ctx) x y z mem 0 ?cnt w")
  have room: "length (q_list q) + 1 < unat (cap q) \<or> unat (cap q) < 2 ^ 31"
    using e by (cases "unat (cap q) < 2 ^ 31") simp_all
  from push_correct[OF inv room, of r] obtain q1 where
    p: "coroutines_push q r = Inr q1" "q_inv q1" "q_list q1 = q_list q @ [r]" by blast
  have c: "cap q \<le> cap q1" by (rule push_Inr(3)[OF inv p(1)])
  have 1: "spawn ctx x y z mem (q, w, tr) = Inr (q1, w1, tr @ [Begin x y z mem 0 ?cnt r])"
    using False b bw p(1) by (simp add: spawn_def Let_def)
  have 2: "q_list q1 = begun [Begin x y z mem 0 ?cnt r]" using p(3) e by simp
  have 3: "begin_calls [Begin x y z mem 0 ?cnt r] =
       (if has_cbarriers ctx \<noteq> 0
        then map (\<lambda>s. (x, y, z, s, 1)) [0..int (unat (subgroups_per_workgroup (data ctx))) - 1]
        else [(x, y, z, 0, int_of_uint (subgroups_per_workgroup (data ctx)))])"
    using False by simp
  have 4: "destroyed [Begin x y z mem 0 ?cnt r] = []" "awaited [Begin x y z mem 0 ?cnt r] = []"
    "groups_of [Begin x y z mem 0 ?cnt r] = []" "set (begin_mems [Begin x y z mem 0 ?cnt r]) \<subseteq> {mem}"
    by simp_all
  show ?thesis
    using 1 p(2) 2 c 4 3 by blast
qed

lemma workgroup_total:
  fixes ctx :: "'w dispatch_context"
  assumes fin: "finishing ctx left" and ep: "has_entry_points ctx"
    and sp: "has_cbarriers ctx \<noteq> 0 \<longrightarrow> unat (subgroups_per_workgroup (data ctx)) < 2147483648"
    and inv: "q_inv q" and e: "q_list q = []"
    and co: "group_coords sx sy i = Inr (x, y, z)"
  shows "\<exists>q' w' new. workgroup ctx mem sx sy i (q, w, tr) = Some (Inr (q', w', tr @ new)) \<and>
     q_inv q' \<and> q_list q' = [] \<and> cap q \<le> cap q' \<and>
     mset (destroyed new) = mset (begun new) \<and> set (awaited new) \<subseteq> set (begun new) \<and>
     groups_of new = [(i, x, y, z)] \<and>
     begin_calls new =
       (if has_cbarriers ctx \<noteq> 0
        then map (\<lambda>s. (x, y, z, s, 1)) [0..int (unat (subgroups_per_workgroup (data ctx))) - 1]
        else [(x, y, z, 0, int_of_uint (subgroups_per_workgroup (data ctx)))]) \<and>
     set (begin_mems new) \<subseteq> {mem}"
proof -
  from spawn_total[OF ep sp inv e, of x y z mem w "tr @ [Workgroup i x y z]"] obtain q1 w1 n1 where
    s: "spawn ctx x y z mem (q, w, tr @ [Workgroup i x y z]) = Inr (q1, w1, (tr @ [Workgroup i x y z]) @ n1)"
    "q_inv q1" "q_list q1 = begun n1" "cap q \<le> cap q1"
    "destroyed n1 = []" "awaited n1 = []" "groups_of n1 = []"
    "begin_calls n1 =
       (if has_cbarriers ctx \<noteq> 0
        then map (\<lambda>s. (x, y, z, s, 1)) [0..int (unat (subgroups_per_workgroup (data ctx))) - 1]
        else [(x, y, z, 0, int_of_uint (subgroups_per_workgroup (data ctx)))])"
    "set (begin_mems n1) \<subseteq> {mem}" by blast
  from drain_total[OF fin ep s(2), of w1 "(tr @ [Workgroup i x y z]) @ n1"] obtain q' w' n2 where
    d: "drain ctx (q1, w1, (tr @ [Workgroup i x y z]) @ n1) = Some (Inr (q', w', ((tr @ [Workgroup i x y z]) @ n1) @ n2))"
    "q_inv q'" "q_list q' = []" "cap q' = cap q1"
    "mset (destroyed n2) = mset (q_list q1)" "set (awaited n2) \<subseteq> set (q_list q1)"
    "begun n2 = []" "begin_calls n2 = []" "begin_mems n2 = []" "groups_of n2 = []" by blast
  let ?new = "[Workgroup i x y z] @ n1 @ n2"
  have 1: "workgroup ctx mem sx sy i (q, w, tr) = Some (Inr (q', w', tr @ ?new))"
    using co s(1) d(1) by (simp add: workgroup_def)
  have 2: "cap q \<le> cap q'" using s(4) d(4) by simp
  have 3: "mset (destroyed ?new) = mset (begun ?new)" using s(3,5) d(5,7) by simp
  have 4: "set (awaited ?new) \<subseteq> set (begun ?new)" using s(3,6) d(6,7) by simp
  have 5: "groups_of ?new = [(i, x, y, z)]" using s(7) d(10) by simp
  have 6: "begin_calls ?new =
       (if has_cbarriers ctx \<noteq> 0
        then map (\<lambda>s. (x, y, z, s, 1)) [0..int (unat (subgroups_per_workgroup (data ctx))) - 1]
        else [(x, y, z, 0, int_of_uint (subgroups_per_workgroup (data ctx)))])"
    using s(8) d(8) by simp
  have 7: "set (begin_mems ?new) \<subseteq> {mem}" using s(9) d(9) by simp
  show ?thesis using 1 d(2,3) 2 3 4 5 6 7 by blast
qed

lemma sdiv_nonneg: "0 \<le> a \<Longrightarrow> 0 < b \<Longrightarrow> (a::int) sdiv b = a div b"
  by (cases "a = 0") (simp_all add: signed_divide_int_def)

lemma int_div_nonneg:
  assumes "0 \<le> a" "0 < b" "a \<le> 2147483647"
  shows "int_div a b = Inr (a div b)" "0 \<le> a div b" "a div b \<le> a" "a div b * b \<le> a"
proof -
  show 1: "0 \<le> a div b" using assms by (simp add: pos_imp_zdiv_nonneg_iff)
  have "a = b * (a div b) + a mod b" by simp
  moreover have "0 \<le> a mod b" using assms(2) by simp
  ultimately show 3: "a div b * b \<le> a" by (metis add.commute le_add_same_cancel2 mult.commute)
  have "a div b * 1 \<le> a div b * b" using 1 assms(2) by (intro mult_left_mono) simp_all
  then show 2: "a div b \<le> a" using 3 by simp
  show "int_div a b = Inr (a div b)"
    using assms 1 2 by (simp add: int_div_def int_result_def in_int_iff sdiv_nonneg)
qed

lemma int_mul_Inr: "in_int (a * b) \<Longrightarrow> int_mul a b = Inr (a * b)"
  by (simp add: int_mul_def int_result_def)

lemma int_sub_Inr: "in_int (a - b) \<Longrightarrow> int_sub a b = Inr (a - b)"
  by (simp add: int_sub_def int_result_def)

lemma group_coords_eq:
  assumes sx: "0 \<le> sx" and sy: "0 \<le> sy" and i: "0 \<le> i" "i \<le> 2147483647"
    and lt: "i < sx * sy * sz" and xy: "sx * sy \<le> 2147483647"
  shows "group_coords sx sy i = Inr (i mod sx, (i div sx) mod sy, i div (sx * sy))"
proof -
  have pos: "0 < sx" "0 < sy"
  proof -
    have "sx * sy * sz \<noteq> 0" using i lt by auto
    then show "0 < sx" "0 < sy" using sx sy by auto
  qed
  define m where "m = sx * sy"
  have m: "0 < m" "m \<le> 2147483647" using pos xy by (simp_all add: m_def)
  define z where "z = i div m"
  note dz = int_div_nonneg[OF i(1) m(1) i(2), folded z_def]
  have zm: "z * sx * sy = z * m" by (simp add: m_def mult.assoc)
  have zsx: "0 \<le> z * sx" "z * sx \<le> z * m"
  proof -
    show "0 \<le> z * sx" using dz(2) sx by simp
    have "z * sx * 1 \<le> z * sx * sy" using \<open>0 \<le> z * sx\<close> pos by (intro mult_left_mono) simp_all
    then show "z * sx \<le> z * m" using zm by simp
  qed
  define g1 where "g1 = i - z * m"
  have g1: "g1 = i mod m" unfolding g1_def z_def by (simp add: minus_div_mult_eq_mod)
  have g1a: "0 \<le> g1" "g1 < m" using m(1) by (simp_all add: g1)
  have g1b: "g1 \<le> i" using dz(2) m(1) by (simp add: g1_def)
  have g1r: "0 \<le> g1" "g1 \<le> i" "g1 \<le> 2147483647" "g1 < m"
    using g1a g1b i by simp_all
  define y where "y = g1 div sx"
  note dy = int_div_nonneg[OF g1r(1) pos(1) g1r(3), folded y_def]
  define x where "x = g1 - y * sx"
  have x: "x = g1 mod sx" unfolding x_def y_def by (simp add: minus_div_mult_eq_mod)
  have zmr: "0 \<le> z * m" "z * m \<le> 2147483647" using dz m i by simp_all
  have e1: "int_mul sx sy = Inr m" using m by (simp add: int_mul_Inr m_def in_int_iff)
  have e2: "int_div i m = Inr z" by (rule dz(1))
  have e3: "int_mul z sx = Inr (z * sx)"
    using zsx zmr by (intro int_mul_Inr) (simp add: in_int_iff)
  have "in_int (z * sx * sy)" unfolding zm in_int_iff using zmr by simp
  then have "int_mul (z * sx) sy = Inr (z * sx * sy)" by (rule int_mul_Inr)
  then have e4: "int_mul (z * sx) sy = Inr (z * m)" unfolding zm .
  have e5: "int_sub i (z * m) = Inr g1"
    using g1r i by (simp add: int_sub_def int_result_def in_int_iff g1_def)
  have e6: "int_div g1 sx = Inr y" by (rule dy(1))
  have ysx: "0 \<le> y * sx" using dy(2) sx by simp
  have e7: "int_mul y sx = Inr (y * sx)"
    using dy(4) g1r ysx by (intro int_mul_Inr) (simp add: in_int_iff)
  have xr: "0 \<le> x" "x \<le> g1" using dy(4) ysx by (simp_all add: x_def)
  have e8: "int_sub g1 (y * sx) = Inr x"
    using xr g1r by (simp add: int_sub_def int_result_def in_int_iff x_def)
  have gc: "group_coords sx sy i = Inr (x, y, z)"
    using e1 e2 e3 e4 e5 e6 e7 e8 by (simp add: group_coords_def)
  have xe: "x = i mod sx"
    unfolding x g1 m_def by (simp add: mod_mod_cancel)
  have ye: "y = (i div sx) mod sy"
  proof -
    have "i mod (sx * sy) = sx * (i div sx mod sy) + i mod sx"
      using sy by (rule zmod_zmult2_eq)
    then have "y = (sx * (i div sx mod sy) + i mod sx) div sx"
      by (simp add: y_def g1 m_def)
    also have "\<dots> = i div sx mod sy"
      using pos by simp
    finally show ?thesis .
  qed
  show ?thesis using gc xe ye by (simp add: z_def m_def)
qed

lemma thread_indices_rec:
  assumes "0 \<le> i" "0 < T"
  shows "thread_indices T n i = (if i < n then i # thread_indices T n (i + T) else [])"
proof (cases "i < n")
  case False
  then have "\<forall>j \<in> set [0..n - 1]. \<not> (i \<le> j \<and> (j - i) mod T = 0)" by auto
  then show ?thesis using False by (simp add: thread_indices_def)
next
  case True
  have sp: "[0..n - 1] = [0..i - 1] @ i # [i + 1..n - 1]"
    using assms(1) True by (intro upto_split3) simp_all
  have a: "filter (\<lambda>j. i \<le> j \<and> (j - i) mod T = 0) [0..i - 1] = []" by auto
  have b: "filter (\<lambda>j. i + T \<le> j \<and> (j - (i + T)) mod T = 0) [0..i - 1] = []"
    using assms(2) by auto
  have c: "\<not> (i + T \<le> i \<and> (i - (i + T)) mod T = 0)" using assms(2) by simp
  have d: "filter (\<lambda>j. i \<le> j \<and> (j - i) mod T = 0) [i + 1..n - 1]
      = filter (\<lambda>j. i + T \<le> j \<and> (j - (i + T)) mod T = 0) [i + 1..n - 1]"
  proof (rule filter_cong[OF refl])
    fix j assume "j \<in> set [i + 1..n - 1]"
    then have j: "i < j" by simp
    have m: "(j - (i + T)) mod T = (j - i) mod T"
      by (metis diff_diff_eq mod_diff_right_eq mod_self diff_zero)
    show "(i \<le> j \<and> (j - i) mod T = 0) = (i + T \<le> j \<and> (j - (i + T)) mod T = 0)"
    proof (cases "(j - i) mod T = 0")
      case False
      then show ?thesis using m by simp
    next
      case z: True
      have "T \<le> j - i"
      proof (rule ccontr)
        assume "\<not> T \<le> j - i"
        then have "(j - i) mod T = j - i" using j by (intro mod_pos_pos_trivial) simp_all
        then show False using z j by simp
      qed
      then show ?thesis using z m j by simp
    qed
  qed
  show ?thesis
    using True a b c d unfolding thread_indices_def sp by simp
qed

lemma spawn_Inr:
  fixes ctx :: "'w dispatch_context"
  assumes run: "spawn ctx x y z mem (q, w, tr) = Inr (q', w', tr')" and inv: "q_inv q"
  shows "\<exists>new. tr' = tr @ new \<and> q_inv q' \<and> q_list q' = q_list q @ begun new \<and> cap q \<le> cap q' \<and>
       destroyed new = [] \<and> awaited new = [] \<and> groups_of new = [] \<and>
       set (begin_mems new) \<subseteq> {mem}"
proof (cases "has_cbarriers ctx \<noteq> 0")
  case True
  then have "spawn_subgroups ctx x y z mem 0 (q, w, tr) = Inr (q', w', tr')"
    using run by (simp add: spawn_def)
  from spawn_subgroups_Inr[OF this inv] show ?thesis by auto
next
  case False
  from run False obtain b where b: "routine_begin ctx = Some b"
    by (auto simp: spawn_def split: option.splits)
  define cnt where "cnt = int_of_uint (subgroups_per_workgroup (data ctx))"
  obtain r w1 where bw: "b (data ctx) x y z mem 0 cnt w = (r, w1)" by (cases "b (data ctx) x y z mem 0 cnt w")
  from run False b bw obtain q1 where p: "coroutines_push q r = Inr q1"
    and res: "q' = q1" "w' = w1" "tr' = tr @ [Begin x y z mem 0 cnt r]"
    by (auto simp: spawn_def Let_def cnt_def split: sum.splits)
  note pi = push_Inr[OF inv p]
  show ?thesis
    using res pi(1,2,3) by (intro exI[of _ "[Begin x y z mem 0 cnt r]"]) simp
qed

lemma no_use_after_destroy_append:
  "destroyed a = [] \<Longrightarrow> no_use_after_destroy (a @ b) = no_use_after_destroy b"
proof (induction a)
  case Nil
  then show ?case by simp
next
  case (Cons e a)
  then show ?case by (cases e) simp_all
qed

lemma countdown_ctx_fields:
  "routine_begin (countdown_ctx b T gx gy gz) = Some countdown_begin"
  "routine_await (countdown_ctx b T gx gy gz) = Some countdown_await"
  "routine_destroy (countdown_ctx b T gx gy gz) = Some countdown_destroy"
  "has_cbarriers (countdown_ctx b T gx gy gz) = b"
  "nthreads (countdown_ctx b T gx gy gz) = T"
  "memory_size (countdown_ctx b T gx gy gz) = 64"
  "subgroups_per_workgroup (data (countdown_ctx b T gx gy gz)) = 2"
  "num_workgroups (data (countdown_ctx b T gx gy gz)) 0 = uint_of_int gx"
  "num_workgroups (data (countdown_ctx b T gx gy gz)) 1 = uint_of_int gy"
  "num_workgroups (data (countdown_ctx b T gx gy gz)) 2 = uint_of_int gz"
  by (simp_all add: countdown_ctx_def countdown_info_def eval_prepare uint_of_int_def)

lemma countdown_finishing: "finishing (countdown_ctx b T gx gy gz) countdown_left"
  by (auto simp: finishing_def countdown_ctx_fields countdown_await_def countdown_left_def
      split: if_splits)

lemma countdown_entry_points: "has_entry_points (countdown_ctx b T gx gy gz)"
  by (simp add: has_entry_points_def countdown_ctx_fields)

lemma replay_append:
  "replay ctx (a @ b) w = Option.bind (replay ctx a w) (replay ctx b)"
proof (induction a arbitrary: w)
  case Nil
  then show ?case by simp
next
  case (Cons e a)
  then show ?case by (cases e) (auto split: option.splits prod.splits)
qed

lemma live_after_append:
  "live_after (a @ b) m = Option.bind (live_after a m) (live_after b)"
proof (induction a arbitrary: m)
  case Nil
  then show ?case by simp
next
  case (Cons e a)
  then show ?case by (cases e) auto
qed

lemma live_after_begins:
  "destroyed n = [] \<Longrightarrow> awaited n = [] \<Longrightarrow> groups_of n = [] \<Longrightarrow>
   live_after n m = Some (m + mset (begun n))"
proof (induction n arbitrary: m)
  case Nil
  then show ?case by simp
next
  case (Cons e n)
  then show ?case by (cases e) simp_all
qed

lemma spawn_subgroups_replay:
  fixes ctx :: "'w dispatch_context"
  shows "spawn_subgroups ctx x y z mem k (q, w, tr) = Inr (q', w', tr') \<Longrightarrow>
     \<exists>new. tr' = tr @ new \<and> replay ctx new w = Some w' \<and> set (begin_mems new) \<subseteq> {mem}"
proof (induction ctx x y z mem k "(q, w, tr)" arbitrary: q w tr rule: spawn_subgroups.induct)
  case (1 ctx x y z mem subgroup q w tr)
  show ?case
  proof (cases "uint_of_int subgroup < subgroups_per_workgroup (data ctx)")
    case False
    then have "tr' = tr" "w' = w" using "1.prems"
      by (simp_all add: spawn_subgroups.simps[of ctx x y z mem subgroup q w tr])
    then show ?thesis by (intro exI[of _ "[]"]) simp
  next
    case True
    from "1.prems" True obtain b where b: "routine_begin ctx = Some b"
      by (auto simp: spawn_subgroups.simps[of ctx x y z mem subgroup q w tr] split: option.splits)
    obtain r w1 where bw: "b (data ctx) x y z mem subgroup 1 w = (r, w1)"
      by (cases "b (data ctx) x y z mem subgroup 1 w")
    from "1.prems" True b bw obtain q1 where p: "coroutines_push q r = Inr q1"
      by (auto simp: spawn_subgroups.simps[of ctx x y z mem subgroup q w tr] split: sum.splits)
    from "1.prems" True b bw p obtain k' where k: "int_add subgroup 1 = Inr k'"
      by (auto simp: spawn_subgroups.simps[of ctx x y z mem subgroup q w tr] split: sum.splits)
    have rec: "spawn_subgroups ctx x y z mem k' (q1, w1, tr @ [Begin x y z mem subgroup 1 r])
        = Inr (q', w', tr')"
      using "1.prems" True b bw p k
      by (simp add: spawn_subgroups.simps[of ctx x y z mem subgroup q w tr])
    from "1.hyps"[OF True b bw[symmetric] p k rec] obtain n where
      n: "tr' = (tr @ [Begin x y z mem subgroup 1 r]) @ n" "replay ctx n w1 = Some w'"
        "set (begin_mems n) \<subseteq> {mem}" by blast
    show ?thesis using n b bw
      by (intro exI[of _ "Begin x y z mem subgroup 1 r # n"]) simp
  qed
qed

lemma spawn_replay:
  fixes ctx :: "'w dispatch_context"
  assumes run: "spawn ctx x y z mem (q, w, tr) = Inr (q', w', tr')"
  shows "\<exists>new. tr' = tr @ new \<and> replay ctx new w = Some w' \<and> set (begin_mems new) \<subseteq> {mem}"
proof (cases "has_cbarriers ctx \<noteq> 0")
  case True
  then have "spawn_subgroups ctx x y z mem 0 (q, w, tr) = Inr (q', w', tr')"
    using run by (simp add: spawn_def)
  then show ?thesis by (rule spawn_subgroups_replay)
next
  case False
  from run False obtain b where b: "routine_begin ctx = Some b"
    by (auto simp: spawn_def split: option.splits)
  define cnt where "cnt = int_of_uint (subgroups_per_workgroup (data ctx))"
  obtain r w1 where bw: "b (data ctx) x y z mem 0 cnt w = (r, w1)"
    by (cases "b (data ctx) x y z mem 0 cnt w")
  from run False b bw have res: "w' = w1" "tr' = tr @ [Begin x y z mem 0 cnt r]"
    by (auto simp: spawn_def Let_def cnt_def split: sum.splits)
  show ?thesis
    using res b bw by (intro exI[of _ "[Begin x y z mem 0 cnt r]"]) simp
qed

lemma drain_steps_aux:
  fixes ctx :: "'w dispatch_context"
  assumes "drain ctx s = Some res"
  shows "q_inv (fst s) \<longrightarrow>
     (case res of Inl e \<Rightarrow> True
      | Inr s' \<Rightarrow> \<exists>new. snd (snd s') = snd (snd s) @ new \<and>
          replay ctx new (fst (snd s)) = Some (fst (snd s')) \<and>
          live_after new (mset (q_list (fst s))) = Some (mset (q_list (fst s'))) \<and>
          q_inv (fst s'))"
  using assms
proof (induction rule: drain.raw_induct[rotated 1, consumes 1, case_names 1])
  case (1 f ctx s y)
  obtain q w tr where s: "s = (q, w, tr)" by (cases s)
  show ?case
  proof
    assume "q_inv (fst s)"
    then have inv: "q_inv q" using s by simp
    show "case y of Inl e \<Rightarrow> True
      | Inr s' \<Rightarrow> \<exists>new. snd (snd s') = snd (snd s) @ new \<and>
          replay ctx new (fst (snd s)) = Some (fst (snd s')) \<and>
          live_after new (mset (q_list (fst s))) = Some (mset (q_list (fst s'))) \<and>
          q_inv (fst s')"
    proof (cases "q_list q")
      case Nil
      then have "coroutines_pop q = Inr (None, q)" using pop_empty[OF inv] by simp
      then have "y = Inr (q, w, tr)" using 1(2) s by simp
      then show ?thesis using s inv by simp
    next
      case (Cons x xs)
      from pop_nonempty[OF inv Cons] obtain q1 where
        p: "coroutines_pop q = Inr (Some x, q1)" "q_inv q1" "q_list q1 = xs" by blast
      show ?thesis
      proof (cases "routine_await ctx")
        case None
        then show ?thesis using 1(2) s p(1) by auto
      next
        case aw: (Some await_f)
        obtain res w1 where a: "await_f x w = (res, w1)" by (cases "await_f x w")
        show ?thesis
        proof (cases "res \<noteq> 0")
          case True
          show ?thesis
          proof (cases "coroutines_push q1 x")
            case (Inl e)
            then show ?thesis using 1(2) s p(1) aw a True by auto
          next
            case push: (Inr q2)
            note pi = push_Inr[OF p(2) push]
            have rec: "f ctx (q2, w1, tr @ [Await x res]) = Some y"
              using 1(2) s p(1) aw a True push by simp
            note ih = 1(1)[OF rec]
            show ?thesis
            proof (cases y)
              case (Inl e)
              then show ?thesis by simp
            next
              case (Inr s')
              from ih Inr pi(1) obtain n where
                n: "snd (snd s') = (tr @ [Await x res]) @ n"
                  "replay ctx n w1 = Some (fst (snd s'))"
                  "live_after n (mset (q_list q2)) = Some (mset (q_list (fst s')))"
                  "q_inv (fst s')" by auto
              have m: "mset (q_list q2) = mset (q_list q)" using pi(2) p(3) Cons by simp
              have "snd (snd s') = snd (snd s) @ (Await x res # n) \<and>
                  replay ctx (Await x res # n) (fst (snd s)) = Some (fst (snd s')) \<and>
                  live_after (Await x res # n) (mset (q_list (fst s))) = Some (mset (q_list (fst s'))) \<and>
                  q_inv (fst s')"
                using n m s aw a Cons by simp
              then show ?thesis using Inr by auto
            qed
          qed
        next
          case False
          show ?thesis
          proof (cases "routine_destroy ctx")
            case None
            then show ?thesis using 1(2) s p(1) aw a False by auto
          next
            case de: (Some destroy_f)
            have rec: "f ctx (q1, destroy_f x w1, tr @ [Await x res, Destroy x]) = Some y"
              using 1(2) s p(1) aw a False de by simp
            note ih = 1(1)[OF rec]
            show ?thesis
            proof (cases y)
              case (Inl e)
              then show ?thesis by simp
            next
              case (Inr s')
              from ih Inr p(2) obtain n where
                n: "snd (snd s') = (tr @ [Await x res, Destroy x]) @ n"
                  "replay ctx n (destroy_f x w1) = Some (fst (snd s'))"
                  "live_after n (mset (q_list q1)) = Some (mset (q_list (fst s')))"
                  "q_inv (fst s')" by auto
              have "snd (snd s') = snd (snd s) @ (Await x res # Destroy x # n) \<and>
                  replay ctx (Await x res # Destroy x # n) (fst (snd s)) = Some (fst (snd s')) \<and>
                  live_after (Await x res # Destroy x # n) (mset (q_list (fst s))) = Some (mset (q_list (fst s'))) \<and>
                  q_inv (fst s')"
                using n s aw a de Cons p(3) by simp
              then show ?thesis using Inr by auto
            qed
          qed
        qed
      qed
    qed
  qed
qed

lemma drain_steps:
  fixes ctx :: "'w dispatch_context"
  assumes "drain ctx (q, w, tr) = Some (Inr (q', w', tr'))" and "q_inv q"
  shows "\<exists>new. tr' = tr @ new \<and> replay ctx new w = Some w' \<and>
     live_after new (mset (q_list q)) = Some (mset (q_list q'))"
  using drain_steps_aux[OF assms(1)] assms(2) by auto

lemma workgroup_full:
  fixes ctx :: "'w dispatch_context"
  assumes fin: "finishing ctx left" and ep: "has_entry_points ctx"
    and sp: "has_cbarriers ctx \<noteq> 0 \<longrightarrow> unat (subgroups_per_workgroup (data ctx)) < 2147483648"
    and inv: "q_inv q" and e: "q_list q = []"
    and co: "group_coords sx sy i = Inr (x, y, z)"
  shows "\<exists>q' w' new. workgroup ctx mem sx sy i (q, w, tr) = Some (Inr (q', w', tr @ new)) \<and>
     q_inv q' \<and> q_list q' = [] \<and> cap q \<le> cap q' \<and>
     mset (destroyed new) = mset (begun new) \<and>
     groups_of new = [(i, x, y, z)] \<and>
     (unat (subgroups_per_workgroup (data ctx)) < 2147483648 \<longrightarrow>
        begin_calls new = group_begins ctx (i, x, y, z)) \<and>
     set (begin_mems new) \<subseteq> {mem} \<and>
     replay ctx new w = Some w' \<and> live_after new {#} = Some {#}"
proof -
  let ?wg = "Workgroup i x y z"
  from spawn_total[OF ep sp inv e, of x y z mem w "tr @ [?wg]"] obtain q1 w1 n1 where
    s: "spawn ctx x y z mem (q, w, tr @ [?wg]) = Inr (q1, w1, (tr @ [?wg]) @ n1)"
    "q_inv q1" "q_list q1 = begun n1" "cap q \<le> cap q1"
    "destroyed n1 = []" "awaited n1 = []" "groups_of n1 = []"
    "begin_calls n1 =
       (if has_cbarriers ctx \<noteq> 0
        then map (\<lambda>s. (x, y, z, s, 1)) [0..int (unat (subgroups_per_workgroup (data ctx))) - 1]
        else [(x, y, z, 0, int_of_uint (subgroups_per_workgroup (data ctx)))])"
    "set (begin_mems n1) \<subseteq> {mem}" by blast
  from spawn_replay[OF s(1)] have r1: "replay ctx n1 w = Some w1" by auto
  have l1: "live_after n1 {#} = Some (mset (q_list q1))"
    using live_after_begins[OF s(5,6,7), of "{#}"] s(3) by simp
  from drain_total[OF fin ep s(2), of w1 "(tr @ [?wg]) @ n1"] obtain q' w' n2 where
    d: "drain ctx (q1, w1, (tr @ [?wg]) @ n1) = Some (Inr (q', w', ((tr @ [?wg]) @ n1) @ n2))"
    "q_inv q'" "q_list q' = []" "cap q' = cap q1"
    "mset (destroyed n2) = mset (q_list q1)"
    "begun n2 = []" "begin_calls n2 = []" "begin_mems n2 = []" "groups_of n2 = []" by blast
  from drain_steps[OF d(1) s(2)] have
    r2: "replay ctx n2 w1 = Some w'" and l2: "live_after n2 (mset (q_list q1)) = Some (mset (q_list q'))"
    by auto
  define new where "new = ?wg # n1 @ n2"
  have 1: "workgroup ctx mem sx sy i (q, w, tr) = Some (Inr (q', w', tr @ new))"
    using co s(1) d(1) by (simp add: workgroup_def new_def)
  have 2: "mset (destroyed new) = mset (begun new)"
    using d(5,6) s(3,5) by (simp add: new_def)
  have 3: "groups_of new = [(i, x, y, z)]" using s(7) d(9) by (simp add: new_def)
  have 4: "unat (subgroups_per_workgroup (data ctx)) < 2147483648 \<longrightarrow>
        begin_calls new = group_begins ctx (i, x, y, z)"
    using s(8) d(7) by (simp add: new_def group_begins_def int_of_uint_small)
  have 5: "set (begin_mems new) \<subseteq> {mem}" using s(9) d(8) by (simp add: new_def)
  have 6: "replay ctx new w = Some w'" using r1 r2 by (simp add: new_def replay_append)
  have 7: "live_after new {#} = Some {#}"
    using l1 l2 d(3) by (simp add: new_def live_after_append)
  have 8: "cap q \<le> cap q'" using s(4) d(4) by simp
  show ?thesis using 1 2 3 4 5 6 7 8 d(2,3) by blast
qed

lemma dispatch_groups_total:
  fixes ctx :: "'w dispatch_context"
  assumes fin: "finishing ctx left" and ep: "has_entry_points ctx"
    and sp: "has_cbarriers ctx \<noteq> 0 \<longrightarrow> unat (subgroups_per_workgroup (data ctx)) < 2147483648"
    and T: "0 < nthreads ctx"
    and sx: "0 \<le> sx" and sy: "0 \<le> sy" and xy: "sx * sy \<le> 2147483647"
    and nT: "sx * sy * sz + nthreads ctx \<le> 2147483648"
  shows "q_inv q \<Longrightarrow> q_list q = [] \<Longrightarrow> 0 \<le> i \<Longrightarrow>
     \<exists>q' w' new. dispatch_groups ctx mem sx sy (sx * sy * sz) i (q, w, tr)
         = Some (Inr (q', w', tr @ new)) \<and>
       q_inv q' \<and> q_list q' = [] \<and> cap q \<le> cap q' \<and>
       mset (destroyed new) = mset (begun new) \<and>
       groups_of new = map (coords_of sx sy) (thread_indices (nthreads ctx) (sx * sy * sz) i) \<and>
       (unat (subgroups_per_workgroup (data ctx)) < 2147483648 \<longrightarrow>
          begin_calls new = concat (map (\<lambda>j. group_begins ctx (coords_of sx sy j))
            (thread_indices (nthreads ctx) (sx * sy * sz) i))) \<and>
       set (begin_mems new) \<subseteq> {mem} \<and>
       replay ctx new w = Some w' \<and> live_after new {#} = Some {#}"
proof (induction "nat (sx * sy * sz - i)" arbitrary: q w tr i rule: less_induct)
  case less
  let ?N = "sx * sy * sz"
  let ?T = "nthreads ctx"
  show ?case
  proof (cases "i < ?N")
    case False
    have "dispatch_groups ctx mem sx sy ?N i (q, w, tr) = Some (Inr (q, w, tr @ []))"
      using False by (subst dispatch_groups.simps) simp
    moreover have "thread_indices ?T ?N i = []"
      using thread_indices_rec[OF less.prems(3) T, of ?N] False by simp
    ultimately show ?thesis using less.prems(1,2)
      by (intro exI[of _ q] exI[of _ w] exI[of _ "[]"]) simp
  next
    case True
    have i: "i \<le> 2147483647" using True nT T by linarith
    have co: "group_coords sx sy i = Inr (i mod sx, (i div sx) mod sy, i div (sx * sy))"
      by (rule group_coords_eq[OF sx sy less.prems(3) i True xy])
    from workgroup_full[OF fin ep sp less.prems(1,2) co, of mem w tr] obtain q1 w1 n1 where
      g: "workgroup ctx mem sx sy i (q, w, tr) = Some (Inr (q1, w1, tr @ n1))"
      "q_inv q1" "q_list q1 = []" "cap q \<le> cap q1"
      "mset (destroyed n1) = mset (begun n1)"
      "groups_of n1 = [(i, i mod sx, (i div sx) mod sy, i div (sx * sy))]"
      "unat (subgroups_per_workgroup (data ctx)) < 2147483648 \<longrightarrow>
        begin_calls n1 = group_begins ctx (i, i mod sx, (i div sx) mod sy, i div (sx * sy))"
      "set (begin_mems n1) \<subseteq> {mem}"
      "replay ctx n1 w = Some w1" "live_after n1 {#} = Some {#}" by blast
    have add: "int_add i ?T = Inr (i + ?T)"
      using True nT T less.prems(3) by (simp add: int_add_Inr in_int_iff)
    have m: "nat (?N - (i + ?T)) < nat (?N - i)" using True T by linarith
    have i': "0 \<le> i + ?T" using less.prems(3) T by linarith
    from less.hyps[OF m g(2,3) i', of w1 "tr @ n1"] obtain q' w' n2 where
      r: "dispatch_groups ctx mem sx sy ?N (i + ?T) (q1, w1, tr @ n1)
           = Some (Inr (q', w', (tr @ n1) @ n2))"
      "q_inv q'" "q_list q' = []" "cap q1 \<le> cap q'"
      "mset (destroyed n2) = mset (begun n2)"
      "groups_of n2 = map (coords_of sx sy) (thread_indices ?T ?N (i + ?T))"
      "unat (subgroups_per_workgroup (data ctx)) < 2147483648 \<longrightarrow>
          begin_calls n2 = concat (map (\<lambda>j. group_begins ctx (coords_of sx sy j))
            (thread_indices ?T ?N (i + ?T)))"
      "set (begin_mems n2) \<subseteq> {mem}"
      "replay ctx n2 w1 = Some w'" "live_after n2 {#} = Some {#}" by blast
    have ti: "thread_indices ?T ?N i = i # thread_indices ?T ?N (i + ?T)"
      using thread_indices_rec[OF less.prems(3) T, of ?N] True by simp
    have 1: "dispatch_groups ctx mem sx sy ?N i (q, w, tr) = Some (Inr (q', w', tr @ (n1 @ n2)))"
      using True g(1) add r(1) by (subst dispatch_groups.simps) simp
    have 2: "mset (destroyed (n1 @ n2)) = mset (begun (n1 @ n2))" using g(5) r(5) by simp
    have 3: "groups_of (n1 @ n2) = map (coords_of sx sy) (thread_indices ?T ?N i)"
      using g(6) r(6) ti by (simp add: coords_of_def)
    have 4: "unat (subgroups_per_workgroup (data ctx)) < 2147483648 \<longrightarrow>
          begin_calls (n1 @ n2) = concat (map (\<lambda>j. group_begins ctx (coords_of sx sy j))
            (thread_indices ?T ?N i))"
      using g(7) r(7) ti by (simp add: coords_of_def)
    have 5: "set (begin_mems (n1 @ n2)) \<subseteq> {mem}" using g(8) r(8) by simp
    have 6: "replay ctx (n1 @ n2) w = Some w'" using g(9) r(9) by (simp add: replay_append)
    have 7: "live_after (n1 @ n2) {#} = Some {#}" using g(10) r(10) by (simp add: live_after_append)
    have 8: "cap q \<le> cap q'" using g(4) r(4) by simp
    show ?thesis using 1 2 3 4 5 6 7 8 r(2,3) by blast
  qed
qed

lemma ensure_memory_routines:
  "ensure_memory ctx t h = Inr (t1, h1) \<Longrightarrow> thread_routines t1 = thread_routines t"
  by (auto simp: ensure_memory_def split: if_splits sum.splits)

lemma dispatch_thread_total:
  fixes ctx :: "'w dispatch_context"
  assumes fin: "finishing ctx left" and ep: "has_entry_points ctx"
    and sp: "has_cbarriers ctx \<noteq> 0 \<longrightarrow> unat (subgroups_per_workgroup (data ctx)) < 2147483648"
    and T: "0 < nthreads ctx" and t: "0 \<le> t"
    and gx: "sx = int_of_uint (num_workgroups (data ctx) 0)"
    and gy: "sy = int_of_uint (num_workgroups (data ctx) 1)"
    and gz: "sz = int_of_uint (num_workgroups (data ctx) 2)"
    and sx: "0 \<le> sx" and sy: "0 \<le> sy" and sz: "0 \<le> sz" and xy: "sx * sy \<le> 2147483647"
    and nT: "sx * sy * sz + nthreads ctx \<le> 2147483648"
    and em: "ensure_memory ctx thread h = Inr (thread1, h1)"
    and inv: "q_inv (thread_routines thread)" and e: "q_list (thread_routines thread) = []"
  shows "\<exists>q' w' tr. dispatch_thread ctx t thread h w
         = Some (Inr (thread1\<lparr>thread_routines := q'\<rparr>, h1, w', tr)) \<and>
       q_inv q' \<and> q_list q' = [] \<and> cap (thread_routines thread) \<le> cap q' \<and>
       mset (destroyed tr) = mset (begun tr) \<and>
       groups_of tr = map (coords_of sx sy) (thread_indices (nthreads ctx) (sx * sy * sz) t) \<and>
       (unat (subgroups_per_workgroup (data ctx)) < 2147483648 \<longrightarrow>
          begin_calls tr = concat (map (\<lambda>j. group_begins ctx (coords_of sx sy j))
            (thread_indices (nthreads ctx) (sx * sy * sz) t))) \<and>
       set (begin_mems tr) \<subseteq> {thread_memory thread1} \<and>
       replay ctx tr w = Some w' \<and> live_after tr {#} = Some {#}"
proof -
  have rt: "thread_routines thread1 = thread_routines thread" by (rule ensure_memory_routines[OF em])
  have m0: "0 \<le> sx * sy" using sx sy by simp
  have m1: "int_mul sx sy = Inr (sx * sy)" using m0 xy by (simp add: int_mul_Inr in_int_iff)
  have n0: "0 \<le> sx * sy * sz" using m0 sz by simp
  have m2: "int_mul (sx * sy) sz = Inr (sx * sy * sz)"
    using n0 nT T by (intro int_mul_Inr) (simp add: in_int_iff)
  from dispatch_groups_total[OF fin ep sp T sx sy xy nT inv e t, of "thread_memory thread1" w "[]"]
  obtain q' w' new where
    r: "dispatch_groups ctx (thread_memory thread1) sx sy (sx * sy * sz) t (thread_routines thread, w, [])
         = Some (Inr (q', w', [] @ new))"
      "q_inv q'" "q_list q' = []" "cap (thread_routines thread) \<le> cap q'"
      "mset (destroyed new) = mset (begun new)"
      "groups_of new = map (coords_of sx sy) (thread_indices (nthreads ctx) (sx * sy * sz) t)"
      "unat (subgroups_per_workgroup (data ctx)) < 2147483648 \<longrightarrow>
          begin_calls new = concat (map (\<lambda>j. group_begins ctx (coords_of sx sy j))
            (thread_indices (nthreads ctx) (sx * sy * sz) t))"
      "set (begin_mems new) \<subseteq> {thread_memory thread1}"
      "replay ctx new w = Some w'" "live_after new {#} = Some {#}" by blast
  have "dispatch_thread ctx t thread h w = Some (Inr (thread1\<lparr>thread_routines := q'\<rparr>, h1, w', new))"
    unfolding dispatch_thread_def Let_def gx[symmetric] gy[symmetric] gz[symmetric]
    using em m1 m2 r(1) rt by simp
  then show ?thesis using r(2-10) by blast
qed

lemma countdown_run:
  "map_option (map_sum id (\<lambda>(th, h, w, tr).
        (start (thread_routines th), endq (thread_routines th), fst w, snd (snd w), tr)))
     (dispatch_thread (countdown_ctx 1 2 2 2 1) 1 alloc_thread_context (heap_init 4096)
        (0, \<lambda>r. 0, [])) =
   Some (Inr (6, 6, 4, [],
     [Workgroup 1 1 0 0, Begin 1 0 0 16 0 1 1, Begin 1 0 0 16 1 1 2,
      Await 1 0, Destroy 1, Await 2 1, Await 2 0, Destroy 2,
      Workgroup 3 1 1 0, Begin 1 1 0 16 0 1 3, Begin 1 1 0 16 1 1 4,
      Await 3 0, Destroy 3, Await 4 1, Await 4 0, Destroy 4]))"
  apply code_simp
  apply (simp add: dispatch_groups.simps workgroup_def drain.simps coroutines_pop_def
      coroutines_push_def coroutines_grow_def realloc_array_def memmove_array_def
      countdown_begin_def countdown_await_def countdown_destroy_def
      group_coords_def spawn_def spawn_subgroups.simps uint_of_int_def
      int_mul_def int_div_def int_sub_def int_add_def int_result_def in_int_iff
      signed_divide_int_def Let_def)
  done

section \<open>Scratch memory, work partition and begin calls: lemmas\<close>

lemma drain_mems_aux:
  fixes ctx :: "'w dispatch_context"
  assumes "drain ctx s = Some res"
  shows "case res of Inl e \<Rightarrow> True
      | Inr s' \<Rightarrow> \<exists>new. snd (snd s') = snd (snd s) @ new \<and> begin_mems new = []"
  using assms
proof (induction rule: drain.raw_induct[rotated 1, consumes 1, case_names 1])
  case (1 f ctx s y)
  obtain q w tr where s: "s = (q, w, tr)" by (cases s)
  show ?case
  proof (cases "coroutines_pop q")
    case (Inl e)
    then show ?thesis using 1(2) s by auto
  next
    case (Inr pr)
    obtain ro q1 where pr: "pr = (ro, q1)" by (cases pr)
    show ?thesis
    proof (cases ro)
      case None
      then show ?thesis using 1(2) s Inr pr by auto
    next
      case (Some r)
      show ?thesis
      proof (cases "routine_await ctx")
        case None
        then show ?thesis using 1(2) s Inr pr Some by auto
      next
        case aw: (Some await_f)
        obtain res w1 where a: "await_f r w = (res, w1)" by (cases "await_f r w")
        show ?thesis
        proof (cases "res \<noteq> 0")
          case True
          show ?thesis
          proof (cases "coroutines_push q1 r")
            case (Inl e)
            then show ?thesis using 1(2) s Inr pr Some aw a True by auto
          next
            case push: (Inr q2)
            have "f ctx (q2, w1, tr @ [Await r res]) = Some y"
              using 1(2) s Inr pr Some aw a True push by simp
            from 1(1)[OF this] show ?thesis
              using s by (cases y) auto
          qed
        next
          case False
          show ?thesis
          proof (cases "routine_destroy ctx")
            case None
            then show ?thesis using 1(2) s Inr pr Some aw a False by auto
          next
            case de: (Some destroy_f)
            have "f ctx (q1, destroy_f r w1, tr @ [Await r res, Destroy r]) = Some y"
              using 1(2) s Inr pr Some aw a False de by simp
            from 1(1)[OF this] show ?thesis
              using s by (cases y) auto
          qed
        qed
      qed
    qed
  qed
qed

lemma workgroup_mems:
  fixes ctx :: "'w dispatch_context"
  assumes "workgroup ctx mem sx sy i (q, w, tr) = Some (Inr (q', w', tr'))"
  shows "\<exists>new. tr' = tr @ new \<and> set (begin_mems new) \<subseteq> {mem}"
proof -
  from assms obtain x y z where co: "group_coords sx sy i = Inr (x, y, z)"
    by (auto simp: workgroup_def split: sum.splits)
  from assms co obtain q1 w1 tr1 where
    s: "spawn ctx x y z mem (q, w, tr @ [Workgroup i x y z]) = Inr (q1, w1, tr1)"
    by (auto simp: workgroup_def split: sum.splits)
  from assms co s have d: "drain ctx (q1, w1, tr1) = Some (Inr (q', w', tr'))"
    by (simp add: workgroup_def)
  from spawn_replay[OF s] obtain n1 where
    n1: "tr1 = (tr @ [Workgroup i x y z]) @ n1" "set (begin_mems n1) \<subseteq> {mem}" by blast
  from drain_mems_aux[OF d] obtain n2 where n2: "tr' = tr1 @ n2" "begin_mems n2 = []" by auto
  show ?thesis using n1 n2
    by (intro exI[of _ "Workgroup i x y z # n1 @ n2"]) simp
qed

lemma dispatch_groups_mems_aux:
  fixes ctx :: "'w dispatch_context"
  assumes "dispatch_groups ctx mem sx sy ngroups i s = Some res"
  shows "case res of Inl e \<Rightarrow> True
      | Inr s' \<Rightarrow> \<exists>new. snd (snd s') = snd (snd s) @ new \<and> set (begin_mems new) \<subseteq> {mem}"
  using assms
proof (induction rule: dispatch_groups.raw_induct[rotated 1, consumes 1, case_names 1])
  case (1 f ctx mem sx sy ngroups i s y)
  obtain q w tr where s: "s = (q, w, tr)" by (cases s)
  show ?case
  proof (cases "i < ngroups")
    case False
    then have "y = Inr s" using 1(2) by simp
    then show ?thesis by simp
  next
    case True
    from 1(2) True obtain r where r: "workgroup ctx mem sx sy i s = Some r"
      by (cases "workgroup ctx mem sx sy i s") simp_all
    show ?thesis
    proof (cases r)
      case (Inl e)
      then show ?thesis using 1(2) True r by auto
    next
      case (Inr s1)
      obtain q1 w1 tr1 where s1: "s1 = (q1, w1, tr1)" by (cases s1)
      from workgroup_mems[OF r[unfolded s Inr s1]] obtain n1 where
        n1: "tr1 = tr @ n1" "set (begin_mems n1) \<subseteq> {mem}" by blast
      show ?thesis
      proof (cases "int_add i (nthreads ctx)")
        case (Inl e)
        then show ?thesis using 1(2) True r Inr by auto
      next
        case add: (Inr i')
        have rec: "f ctx mem sx sy ngroups i' s1 = Some y"
          using 1(2) True r Inr add by simp
        note ih = 1(1)[OF rec]
        show ?thesis
        proof (cases y)
          case (Inl e)
          then show ?thesis by simp
        next
          case y: (Inr s')
          from ih y obtain n2 where
            n2: "snd (snd s') = snd (snd s1) @ n2" "set (begin_mems n2) \<subseteq> {mem}" by auto
          have "snd (snd s') = snd (snd s) @ (n1 @ n2) \<and> set (begin_mems (n1 @ n2)) \<subseteq> {mem}"
            using n1 n2 s s1 by simp
          then show ?thesis using y by auto
        qed
      qed
    qed
  qed
qed

lemma dispatch_thread_Inr:
  fixes ctx :: "'w dispatch_context"
  assumes run: "dispatch_thread ctx t thread h w = Some (Inr (thread', h', w', tr))"
  shows "\<exists>thread1. ensure_memory ctx thread h = Inr (thread1, h') \<and>
     thread' = thread1\<lparr>thread_routines := thread_routines thread'\<rparr> \<and>
     set (begin_mems tr) \<subseteq> {thread_memory thread1}"
proof -
  from run obtain thread1 h1 where em: "ensure_memory ctx thread h = Inr (thread1, h1)"
    by (auto simp: dispatch_thread_def split: sum.splits)
  define sx where "sx = int_of_uint (num_workgroups (data ctx) 0)"
  define sy where "sy = int_of_uint (num_workgroups (data ctx) 1)"
  define sz where "sz = int_of_uint (num_workgroups (data ctx) 2)"
  from run em obtain sxy where m1: "int_mul sx sy = Inr sxy"
    unfolding dispatch_thread_def Let_def sx_def sy_def by (auto split: sum.splits)
  from run em m1 obtain n where m2: "int_mul sxy sz = Inr n"
    unfolding dispatch_thread_def Let_def sx_def sy_def sz_def by (auto split: sum.splits)
  have b: "Option.bind
       (dispatch_groups ctx (thread_memory thread1) sx sy n t (thread_routines thread1, w, []))
       (\<lambda>res. case res of
          Inl e \<Rightarrow> Some (Inl e)
        | Inr (q, w', tr) \<Rightarrow> Some (Inr (thread1\<lparr>thread_routines := q\<rparr>, h1, w', tr)))
     = Some (Inr (thread', h', w', tr))"
    using run em m1 m2 unfolding dispatch_thread_def Let_def sx_def sy_def sz_def by simp
  then obtain r where r: "dispatch_groups ctx (thread_memory thread1) sx sy n t
      (thread_routines thread1, w, []) = Some r"
    by (cases "dispatch_groups ctx (thread_memory thread1) sx sy n t (thread_routines thread1, w, [])")
      simp_all
  from b r obtain q' where
    q: "r = Inr (q', w', tr)" "thread' = thread1\<lparr>thread_routines := q'\<rparr>" "h' = h1"
    by (cases r) (auto split: prod.splits)
  from dispatch_groups_mems_aux[OF r] q(1) have "set (begin_mems tr) \<subseteq> {thread_memory thread1}"
    by auto
  then show ?thesis using em q by (intro exI[of _ thread1]) simp
qed

lemma ensure_memory_keep:
  "memory_size ctx \<le> thread_memory_size t \<Longrightarrow> ensure_memory ctx t h = Inr (t, h)"
  by (simp add: ensure_memory_def not_less[symmetric])

lemma ensure_memory_grow:
  assumes inv: "thread_inv t h" and lt: "thread_memory_size t < memory_size ctx"
    and ok: "fst (posix_memalign
        (if thread_memory t \<noteq> NULL then h\<lparr>blocks := (blocks h)(thread_memory t := None)\<rparr> else h)
        16 (unat (memory_size ctx))) = 0"
  shows "\<exists>p h1 b. ensure_memory ctx t h
       = Inr (t\<lparr>thread_memory := p, thread_memory_size := memory_size ctx\<rparr>, h1) \<and>
     16 dvd p \<and> blocks h1 p = Some b \<and> length b = unat (memory_size ctx)"
proof -
  let ?h0 = "if thread_memory t \<noteq> NULL then h\<lparr>blocks := (blocks h)(thread_memory t := None)\<rparr> else h"
  have fr: "(if thread_memory t \<noteq> NULL then c_free h (thread_memory t) else Inr h) = Inr ?h0"
    using inv by (auto simp: thread_inv_def c_free_def dom_def split: if_splits option.splits)
  from malloc_align_success[OF ok] obtain p h1 where
    m: "malloc_align ?h0 16 (unat (memory_size ctx)) = Inr (p, h1)" "16 dvd p"
      "blocks h1 p = Some (replicate (unat (memory_size ctx)) 0)" by blast
  have "ensure_memory ctx t h = Inr (t\<lparr>thread_memory := p, thread_memory_size := memory_size ctx\<rparr>, h1)"
    unfolding ensure_memory_def using lt fr m(1) by simp
  then show ?thesis using m(2,3) by auto
qed

lemma begin_mems_length: "length (begin_mems tr) = length (begin_calls tr)"
proof (induction tr)
  case Nil
  then show ?case by simp
next
  case (Cons e tr)
  then show ?case by (cases e) simp_all
qed

lemma thread_indices_member:
  assumes "0 < T" "0 \<le> t" "t < T"
  shows "i \<in> set (thread_indices T n t) \<longleftrightarrow> 0 \<le> i \<and> i < n \<and> i mod T = t"
proof -
  have "(t \<le> i \<and> (i - t) mod T = 0) \<longleftrightarrow> i mod T = t" if "0 \<le> i"
  proof
    assume a: "t \<le> i \<and> (i - t) mod T = 0"
    have tm: "t mod T = t" using assms by simp
    have "i mod T = ((i - t) + t) mod T" by simp
    also have "\<dots> = ((i - t) mod T + t mod T) mod T" by (simp only: mod_add_eq)
    also have "\<dots> = t" using a tm by simp
    finally show "i mod T = t" .
  next
    assume b: "i mod T = t"
    have e: "i = T * (i div T) + t" using b mult_div_mod_eq[of T i] by simp
    have "0 \<le> i div T" using that assms(1) by (simp add: pos_imp_zdiv_nonneg_iff)
    then have "0 \<le> T * (i div T)" using assms(1) by simp
    then have 1: "t \<le> i" using e by linarith
    have "i - t = T * (i div T)" using e by linarith
    then have 2: "(i - t) mod T = 0" by simp
    show "t \<le> i \<and> (i - t) mod T = 0" using 1 2 by simp
  qed
  then show ?thesis by (auto simp: thread_indices_def)
qed

lemma thread_indices_sorted: "sorted_wrt (<) (thread_indices T n t)"
  unfolding thread_indices_def by (intro sorted_wrt_filter) (simp add: strict_sorted_iff)

lemma coords_of_range:
  fixes sx sy sz i :: int
  assumes sx: "0 < sx" and sy: "0 < sy" and i: "0 \<le> i" "i < sx * sy * sz"
  shows "i mod sx + sx * ((i div sx) mod sy) + sx * sy * (i div (sx * sy)) = i"
    "0 \<le> i mod sx" "i mod sx < sx" "0 \<le> (i div sx) mod sy" "(i div sx) mod sy < sy"
    "0 \<le> i div (sx * sy)" "i div (sx * sy) < sz"
proof -
  have "0 \<le> sy" using sy by simp
  then have d: "i div (sx * sy) = i div sx div sy" by (rule zdiv_zmult2_eq)
  define a where "a = i div sx div sy"
  define b where "b = (i div sx) mod sy"
  define c where "c = i mod sx"
  have e1: "sx * (i div sx) + c = i" unfolding c_def by simp
  have e2: "sy * a + b = i div sx" unfolding a_def b_def by simp
  have "c + sx * b + sx * sy * a = sx * (sy * a + b) + c" by (simp add: algebra_simps)
  also have "\<dots> = i" unfolding e2 by (rule e1)
  finally show "i mod sx + sx * ((i div sx) mod sy) + sx * sy * (i div (sx * sy)) = i"
    unfolding d a_def b_def c_def .
  show "0 \<le> i mod sx" "i mod sx < sx" using sx by simp_all
  show "0 \<le> (i div sx) mod sy" "(i div sx) mod sy < sy" using sy by simp_all
  have m: "0 < sx * sy" using sx sy by simp
  show "0 \<le> i div (sx * sy)" using i(1) m by (simp add: pos_imp_zdiv_nonneg_iff)
  show "i div (sx * sy) < sz"
  proof (rule ccontr)
    assume "\<not> i div (sx * sy) < sz"
    then have "sz \<le> i div (sx * sy)" by simp
    then have "sz * (sx * sy) \<le> i div (sx * sy) * (sx * sy)"
      using m by (intro mult_right_mono) simp_all
    moreover have "i div (sx * sy) * (sx * sy) + i mod (sx * sy) = i"
      by (rule div_mult_mod_eq)
    moreover have "0 \<le> i mod (sx * sy)" using m by simp
    ultimately have "sz * (sx * sy) \<le> i" by linarith
    then show False using i(2) by (simp add: mult.commute mult.left_commute)
  qed
qed

lemma countdown_run_negative:
  "map_option (map_sum id (\<lambda>(th, h, w, tr). groups_of tr))
     (dispatch_thread (countdown_ctx 0 1 (- 2) (- 3) 1) 0 alloc_thread_context (heap_init 4096)
        (0, \<lambda>r. 0, [])) =
   Some (Inr [(0, 0, 0, 0), (1, 1, 0, 0), (2, 0, - 1, 0), (3, 1, - 1, 0), (4, 0, - 2, 0),
     (5, 1, - 2, 0)])"
  apply code_simp
  apply (simp add: dispatch_groups.simps workgroup_def drain.simps coroutines_pop_def
      coroutines_push_def coroutines_grow_def realloc_array_def memmove_array_def
      countdown_begin_def countdown_await_def countdown_destroy_def
      group_coords_def spawn_def spawn_subgroups.simps uint_of_int_def int_of_uint_def
      int_mul_def int_div_def int_sub_def int_add_def int_result_def in_int_iff
      signed_divide_int_def Let_def groups_of_def)
  done

lemma uint_roundtrip:
  assumes "0 \<le> g" "g \<le> 2147483647"
  shows "int_of_uint (uint_of_int g) = g" "int (unat (uint_of_int g)) = g"
    "unat (uint_of_int g) < 2147483648"
proof -
  have u: "unat (uint_of_int g) = nat g"
    using assms by (simp add: uint_of_int_def unat_eq_nat_uint uint_word_of_int)
  show 3: "unat (uint_of_int g) < 2147483648" using u assms by linarith
  show 2: "int (unat (uint_of_int g)) = g"
  proof -
    have "int (nat g) = g" using assms(1) by simp
    then show ?thesis using u by presburger
  qed
  show "int_of_uint (uint_of_int g) = g" using int_of_uint_small[OF 3] 2 by presburger
qed

lemma subgroup_counts_Inr:
  assumes "subgroup_counts info = Inr (ipw, spw)"
  shows "ipw = workgroup_size_x info * workgroup_size_y info * workgroup_size_z info"
    "in_int ipw" "0 \<le> ipw \<Longrightarrow> spw = (ipw + 3) div 4"
proof -
  from assms obtain xy a b where
    s: "int_mul (workgroup_size_x info) (workgroup_size_y info) = Inr xy"
      "int_mul xy (workgroup_size_z info) = Inr ipw"
      "int_add ipw SIMD_WIDTH = Inr a" "int_sub a 1 = Inr b" "int_div b SIMD_WIDTH = Inr spw"
    by (auto simp: subgroup_counts_def split: sum.splits)
  have xy: "xy = workgroup_size_x info * workgroup_size_y info"
    using s(1) by (auto simp: int_mul_def int_result_def split: if_splits)
  show 1: "ipw = workgroup_size_x info * workgroup_size_y info * workgroup_size_z info"
    using s(2) xy by (auto simp: int_mul_def int_result_def split: if_splits)
  show 2: "in_int ipw" using s(2) by (auto simp: int_mul_def int_result_def split: if_splits)
  have a: "a = ipw + 4" using s(3) by (simp add: int_add_Inr SIMD_WIDTH_def)
  have b: "b = ipw + 3" "in_int b"
    using s(4) a by (auto simp: int_sub_def int_result_def split: if_splits)
  show "spw = (ipw + 3) div 4" if "0 \<le> ipw"
  proof -
    have "0 \<le> b" "b \<le> 2147483647" using that b by (simp_all add: in_int_iff)
    from int_div_nonneg(1)[OF this(1) _ this(2), of 4] s(5) show ?thesis
      by (simp add: SIMD_WIDTH_def b(1))
  qed
qed

lemma ceiling_quarter: "\<lceil>real_of_int a / 4\<rceil> = (a + 3) div 4"
proof -
  have "\<lceil>real_of_int a / real_of_int 4\<rceil> = - (- a div 4)" by (rule ceiling_divide_eq_div)
  moreover have "- (- a div 4) = (a + 3) div 4" by presburger
  ultimately show ?thesis by simp
qed

lemma thread_pred_iff:
  assumes "0 < T" "0 \<le> t" "t < T" "0 \<le> i"
  shows "(t \<le> i \<and> (i - t) mod T = 0) \<longleftrightarrow> i mod T = (t :: int)"
  using thread_indices_member[OF assms(1,2,3), of i "i + 1"] assms(4)
  by (auto simp: thread_indices_def)

lemma thread_indices_filter:
  assumes "0 < T" "0 \<le> t" "t < T"
  shows "thread_indices T n t = filter (\<lambda>i. i mod T = t) [0..n - 1]"
  unfolding thread_indices_def
  by (rule filter_cong[OF refl]) (simp add: thread_pred_iff[OF assms])

lemma sum_filter_mod:
  fixes f :: "int \<Rightarrow> 'a list"
  assumes T: "0 < T"
  shows "(\<Sum>t\<in>{0..<T}. mset (concat (map f (filter (\<lambda>i. i mod T = t) xs))))
     = mset (concat (map f xs))"
proof (induction xs)
  case Nil
  then show ?case by simp
next
  case (Cons x xs)
  have m: "x mod T \<in> {0..<T}" using T by simp
  have "(\<Sum>t\<in>{0..<T}. mset (concat (map f (filter (\<lambda>i. i mod T = t) (x # xs)))))
      = (\<Sum>t\<in>{0..<T}. (if x mod T = t then mset (f x) else {#})
            + mset (concat (map f (filter (\<lambda>i. i mod T = t) xs))))"
    by (intro sum.cong refl) simp
  also have "\<dots> = (\<Sum>t\<in>{0..<T}. if x mod T = t then mset (f x) else {#})
      + (\<Sum>t\<in>{0..<T}. mset (concat (map f (filter (\<lambda>i. i mod T = t) xs))))"
    by (rule sum.distrib)
  also have "(\<Sum>t\<in>{0..<T}. if x mod T = t then mset (f x) else {#}) = mset (f x)"
    using m by (simp add: sum.delta')
  finally show ?case using Cons.IH by simp
qed

lemma thread_sum:
  fixes f :: "int \<Rightarrow> 'a list"
  assumes T: "0 < T"
  shows "(\<Sum>t\<in>{0..<T}. mset (concat (map f (thread_indices T n t))))
     = mset (concat (map f [0..n - 1]))"
proof -
  have "(\<Sum>t\<in>{0..<T}. mset (concat (map f (thread_indices T n t))))
      = (\<Sum>t\<in>{0..<T}. mset (concat (map f (filter (\<lambda>i. i mod T = t) [0..n - 1]))))"
    by (intro sum.cong refl) (simp add: thread_indices_filter[OF T])
  then show ?thesis using sum_filter_mod[OF T] by simp
qed

lemma countdown_prepare:
  "\<exists>hp. prepare_dispatch alloc_dispatch_context (heap_init 4096) T (countdown_info b) [] gx gy gz
     = Inr (countdown_ctx b T gx gy gz, hp)"
  by (simp add: countdown_ctx_def countdown_info_def eval_prepare)

section \<open>Claims\<close>

text \<open>
  C9, amended. For every width and height such that \<^verbatim>\<open>width*height*4\<close> is non-negative and
  at most \<open>2 ^ 31 - 16\<close> (so that the size rounded up to a multiple of 16 still fits an
  \<^verbatim>\<open>int\<close>), \<^verbatim>\<open>width*4\<close> is representable, and the allocation succeeds,
  \<^verbatim>\<open>alloc_image_rgba\<close> returns a descriptor whose \<open>size_in_bytes\<close> is \<^verbatim>\<open>width*height*4\<close>
  rounded up to the next multiple of 16, whose buffer is 16-byte aligned and has that
  size, with depth 1, sample count 1, row pitch \<^verbatim>\<open>width*4\<close>, and slice and sample pitch
  equal to \<open>size_in_bytes\<close>.
\<close>

theorem alloc_image_rgba_descriptor:
  assumes nonneg: "0 \<le> w * ht * 4"
    and fits: "w * ht * 4 \<le> 2 ^ 31 - 16"
    and row: "in_int (w * 4)"
    and mem: "fst (posix_memalign h REQUIRED_MEMORY_ALIGNMENT (nat (round_up16 (w * ht * 4)))) = 0"
  shows "\<exists>d h'. alloc_image_rgba h w ht = Inr (d, h') \<and>
     size_in_bytes d = round_up16 (w * ht * 4) \<and>
     16 dvd ptr d \<and>
     blocks h' (ptr d) = Some (replicate (nat (size_in_bytes d)) 0) \<and>
     depth d = 1 \<and> sample_count d = 1 \<and>
     row_pitch_bytes d = w * 4 \<and>
     slice_pitch_bytes d = size_in_bytes d \<and>
     sample_pitch_bytes d = size_in_bytes d"
proof -
  define m where "m = w * ht"
  define n where "n = m * 4"
  have n: "0 \<le> n" "n \<le> 2147483632" using nonneg fits by (simp_all add: n_def m_def)
  have wh: "in_int m" using n unfolding in_int_iff n_def by linarith
  have whc: "in_int (m * 4)" using n unfolding in_int_iff n_def by linarith
  have rb: "0 \<le> round_up16 n" "round_up16 n \<le> 2147483632"
    using round_up16_bounds[OF n] by simp_all
  have sz: "(size_t_of_int n + 16 - 1) AND size_t_of_int (NOT (16 - 1)) = size_t_of_int (round_up16 n)"
    by (rule round_word)
  have un: "unat (size_t_of_int (round_up16 n)) = nat (round_up16 n)"
    using rb by (simp add: unat_size_t)
  have rt: "int_of_size_t (size_t_of_int (round_up16 n)) = round_up16 n"
    using rb by (simp add: int_of_size_t_small)
  from malloc_align_success[OF mem] obtain p h' where
    ma: "malloc_align h REQUIRED_MEMORY_ALIGNMENT (nat (round_up16 n)) = Inr (p, h')"
    and al: "REQUIRED_MEMORY_ALIGNMENT dvd p"
    and bl: "blocks h' p = Some (replicate (nat (round_up16 n)) 0)"
    unfolding n_def m_def by blast
  have "alloc_image_rgba h w ht =
     Inr (\<lparr>ptr = p, width = w, height = ht, depth = 1, row_pitch_bytes = w * 4,
           slice_pitch_bytes = round_up16 n, sample_pitch_bytes = round_up16 n,
           sample_count = 1, size_in_bytes = round_up16 n,
           stencil_ptr = NULL, stencil_row_pitch_bytes = 0, stencil_slice_pitch_bytes = 0,
           stencil_sample_pitch_bytes = 0, memoryOwner = NULL\<rparr>, h')"
    using wh whc row ma sz un rt
    by (simp add: alloc_image_rgba_def int_mul_def int_result_def Let_def
        m_def[symmetric] n_def[symmetric])
  then show ?thesis
    using al bl rb by (simp add: n_def m_def REQUIRED_MEMORY_ALIGNMENT_def)
qed

text \<open>A 2 by 3 image: 24 bytes, rounded up to 32.\<close>

theorem alloc_image_rgba_descriptor_witness:
  "(0::int) \<le> 2 * 3 * 4 \<and> (2::int) * 3 * 4 \<le> 2 ^ 31 - 16 \<and> in_int (2 * 4) \<and>
   fst (posix_memalign \<lparr>blocks = Map.empty, brk = 1, limit = 4096\<rparr> REQUIRED_MEMORY_ALIGNMENT
          (nat (round_up16 (2 * 3 * 4)))) = 0 \<and>
   (\<exists>d h'. alloc_image_rgba \<lparr>blocks = Map.empty, brk = 1, limit = 4096\<rparr> 2 3 = Inr (d, h') \<and>
     size_in_bytes d = 32 \<and> 16 dvd ptr d \<and> depth d = 1 \<and> sample_count d = 1 \<and>
     row_pitch_bytes d = 8 \<and> slice_pitch_bytes d = 32 \<and> sample_pitch_bytes d = 32)"
proof -
  have a: "(0::int) \<le> 2 * 3 * 4" by simp
  have b: "(2::int) * 3 * 4 \<le> 2 ^ 31 - 16" by simp
  have c: "in_int (2 * 4)" by (simp add: in_int_iff)
  have d: "fst (posix_memalign \<lparr>blocks = Map.empty, brk = 1, limit = 4096\<rparr> REQUIRED_MEMORY_ALIGNMENT
          (nat (round_up16 (2 * 3 * 4)))) = 0"
    by (simp add: posix_memalign_def REQUIRED_MEMORY_ALIGNMENT_def round_up16_def Let_def)
  have r: "round_up16 (2 * 3 * 4) = 32" by (simp add: round_up16_def)
  show ?thesis
    using alloc_image_rgba_descriptor[OF a b c d] a b c d unfolding r by auto
qed

text \<open>
  C9 as stated fails: for width 536870911 and height 1, \<^verbatim>\<open>width*height*4 = 2147483644\<close> is
  non-negative and representable, the rounded size is \<open>2 ^ 31\<close>, and the \<^verbatim>\<open>int\<close> field
  \<open>size_in_bytes\<close> receives \<open>- 2 ^ 31\<close>.
\<close>

theorem alloc_image_rgba_size_counterexample:
  "in_int (536870911 * 1 * 4) \<and> (0::int) \<le> 536870911 * 1 * 4 \<and>
   round_up16 (536870911 * 1 * 4) = 2147483648 \<and>
   map_sum id (\<lambda>(d, h'). size_in_bytes d)
     (alloc_image_rgba \<lparr>blocks = Map.empty, brk = 1, limit = 2 ^ 40\<rparr> 536870911 1)
   = Inr (- 2147483648)"
  by (simp add: alloc_image_rgba_def int_mul_def int_result_def in_int_iff round_up16_def
      size_t_of_int_def int_of_size_t_def malloc_align_def posix_memalign_def
      REQUIRED_MEMORY_ALIGNMENT_def Let_def)

text \<open>
  C3, amended. The circular buffer refines the list FIFO for every sequence of pushes and
  pops from the zero-initialised queue in which no push is made while the queue holds more
  than \<open>Q_MAX = 10 * 2 ^ 28 - 2\<close> handles: the run returns, its pops return what the pops
  of the list return, in order (the popped handles followed by the queued ones are the
  pushed handles), and the queue is empty (\<open>start = endq\<close>) exactly when as many handles
  were popped as pushed. The grow step keeps the queued handles in order for every queue
  that satisfies the invariant, wrapped around or not, whose capacity is below \<open>2 ^ 31\<close>.
\<close>

theorem queue_refines_fifo:
  assumes "fifo_peak [] ops \<le> Q_MAX"
  shows "\<exists>q outs. run_ops coroutines_zero ops = Inr (q, outs) \<and>
     fifo_run [] ops = (q_list q, outs) \<and>
     pushed ops = popped outs @ q_list q \<and>
     (start q = endq q \<longleftrightarrow> length (pushed ops) = length (popped outs)) \<and>
     (\<forall>g. q_inv g \<and> unat (cap g) < 2 ^ 31 \<longrightarrow>
        (\<exists>g' nxt. coroutines_grow g = Inr (g', nxt) \<and> q_inv g' \<and> q_list g' = q_list g))"
proof -
  from run_ops_refines[of coroutines_zero ops] assms zero_inv obtain q outs where
    r: "run_ops coroutines_zero ops = Inr (q, outs)" "q_inv q"
    "fifo_run [] ops = (q_list q, outs)" by auto
  have o: "pushed ops = popped outs @ q_list q"
    using fifo_run_order[OF r(3)] by simp
  have e: "start q = endq q \<longleftrightarrow> length (pushed ops) = length (popped outs)"
    using q_empty_iff[OF r(2)] o by auto
  have g: "\<forall>g. q_inv g \<and> unat (cap g) < 2 ^ 31 \<longrightarrow>
        (\<exists>g' nxt. coroutines_grow g = Inr (g', nxt) \<and> q_inv g' \<and> q_list g' = q_list g)"
    using grow_correct by blast
  show ?thesis using r o e g by blast
qed

text \<open>Two pushes, the pop of the first handle, and a pop too many later.\<close>

theorem queue_refines_fifo_witness:
  "fifo_peak [] [Push 7, Push 8, Pop, Pop, Pop] \<le> Q_MAX \<and>
   (\<exists>q outs. run_ops coroutines_zero [Push 7, Push 8, Pop, Pop, Pop] = Inr (q, outs) \<and>
      outs = [Some 7, Some 8, None] \<and> q_list q = [] \<and> start q = endq q)"
proof -
  have a: "fifo_peak [] [Push 7, Push 8, Pop, Pop, Pop] \<le> Q_MAX" by (simp add: Q_MAX_def)
  from queue_refines_fifo[OF a] obtain q outs where
    "run_ops coroutines_zero [Push 7, Push 8, Pop, Pop, Pop] = Inr (q, outs)"
    "fifo_run [] [Push 7, Push 8, Pop, Pop, Pop] = (q_list q, outs)"
    "start q = endq q \<longleftrightarrow> length (pushed [Push 7, Push 8, Pop, Pop, Pop]) = length (popped outs)"
    by blast
  then show ?thesis using a by auto
qed

text \<open>
  C3 as stated fails: the list FIFO takes 2684354560 pushes, the code does not. The last
  push finds the queue full with capacity \<open>10 * 2 ^ 28\<close>; \<^verbatim>\<open>cap * 2\<close> wraps around to
  \<open>2 ^ 30\<close>, and the handle is written past the shrunk array.
\<close>

theorem queue_refinement_counterexample:
  "fifo_run [] (replicate 2684354560 (Push 0)) = (replicate 2684354560 0, []) \<and>
   run_ops coroutines_zero (replicate 2684354560 (Push 0)) = Inl OutOfBounds"
proof -
  from chain[of 28] obtain q where
    a: "run_ops coroutines_zero (replicate 2684354559 (Push 0)) = Inr (q, [])"
    and f: "q_filled q 2684354560 2684354559" by auto
  have "replicate (2684354559 + 1) (Push 0) = replicate 2684354559 (Push 0) @ replicate 1 (Push 0)"
    by (rule replicate_add)
  then have "replicate 2684354560 (Push 0) = replicate 2684354559 (Push 0) @ [Push 0]"
    by simp
  then have "run_ops coroutines_zero (replicate 2684354560 (Push 0)) = Inl OutOfBounds"
    using run_ops_pushes_append[OF a, of "[Push 0]"] overflow_push(1)[OF f, of 0] by simp
  then show ?thesis by (simp add: fifo_run_pushes)
qed

text \<open>
  C4, amended. Every state the zero-initialised queue reaches by pushes and pops, none of
  the pushes made while the queue holds more than \<open>Q_MAX = 10 * 2 ^ 28 - 2\<close> handles,
  satisfies the representation invariant, and the handles between \<open>start\<close> and \<open>endq\<close>
  are the handles pushed and not yet popped, oldest first (the contents of the list FIFO
  after the same operations): the array has \<open>cap\<close> elements, \<open>cap\<close> is 0 or \<open>10 * 2 ^ j\<close>;
  when \<open>cap\<close> is not 0, \<open>start\<close> and \<open>endq\<close> are below it and fewer than \<open>cap\<close> handles
  are pushed and not yet popped (a slot is always free); \<open>start = endq\<close> exactly when no
  pushed handle is left to pop, that is when as many handles were popped as pushed. A pop
  returns the oldest such handle, keeps the invariant and the capacity. A push on at most
  \<open>Q_MAX\<close> handles appends its handle, keeps the invariant, leaves \<open>start\<close> and \<open>endq\<close>
  different and a slot free, and the capacity stays or becomes the larger of 10 and twice
  the old one.
\<close>

theorem queue_invariant:
  assumes "fifo_peak [] ops \<le> Q_MAX"
  shows "\<exists>q outs. run_ops coroutines_zero ops = Inr (q, outs) \<and>
     q_inv q \<and> cap_ok q \<and>
     q_list q = fst (fifo_run [] ops) \<and> outs = snd (fifo_run [] ops) \<and>
     (cap q \<noteq> 0 \<longrightarrow>
        start q < cap q \<and> endq q < cap q \<and> length (fst (fifo_run [] ops)) < unat (cap q)) \<and>
     (start q = endq q \<longleftrightarrow> fst (fifo_run [] ops) = []) \<and>
     (start q = endq q \<longleftrightarrow> length (pushed ops) = length (popped outs)) \<and>
     (\<exists>out q'. coroutines_pop q = Inr (out, q') \<and> q_inv q' \<and> cap_ok q' \<and> cap q' = cap q \<and>
        (out, q_list q') =
          (case fst (fifo_run [] ops) of [] \<Rightarrow> (None, []) | x # xs \<Rightarrow> (Some x, xs))) \<and>
     (\<forall>r. length (fst (fifo_run [] ops)) \<le> Q_MAX \<longrightarrow>
        (\<exists>q'. coroutines_push q r = Inr q' \<and> q_inv q' \<and> cap_ok q' \<and>
           q_list q' = fst (fifo_run [] ops) @ [r] \<and> start q' \<noteq> endq q' \<and>
           length (fst (fifo_run [] ops) @ [r]) < unat (cap q') \<and> cap q \<le> cap q' \<and>
           (cap q' = cap q \<or> unat (cap q') = max 10 (2 * unat (cap q)))))"
proof -
  from run_ops_refines[of coroutines_zero ops] assms zero_inv obtain q outs where
    r: "run_ops coroutines_zero ops = Inr (q, outs)" "q_inv q" "cap_ok q"
    and f: "fifo_run [] ops = (q_list q, outs)" by auto
  have l: "q_list q = fst (fifo_run [] ops)" "outs = snd (fifo_run [] ops)" using f by simp_all
  have a: "cap q \<noteq> 0 \<longrightarrow> start q < cap q \<and> endq q < cap q \<and> length (q_list q) < unat (cap q)"
    using r(2) q_list_lt_cap[OF r(2)] by (auto simp: q_inv_def)
  have b: "start q = endq q \<longleftrightarrow> q_list q = []" by (rule q_empty_iff[OF r(2)])
  have o: "pushed ops = popped outs @ q_list q" using fifo_run_order[OF f] by simp
  have e: "start q = endq q \<longleftrightarrow> length (pushed ops) = length (popped outs)"
    using b o by auto
  from pop_total[OF r(2)] obtain out q1 where
    p: "coroutines_pop q = Inr (out, q1)" "q_inv q1" "cap q1 = cap q"
      "case q_list q of [] \<Rightarrow> out = None \<and> q1 = q | x # xs \<Rightarrow> out = Some x \<and> q_list q1 = xs"
    by blast
  have p4: "(out, q_list q1) = (case q_list q of [] \<Rightarrow> (None, []) | x # xs \<Rightarrow> (Some x, xs))"
    using p(4) by (cases "q_list q") simp_all
  have p5: "cap_ok q1" using r(3) p(3) by (simp add: cap_ok_def)
  have c: "\<exists>out q'. coroutines_pop q = Inr (out, q') \<and> q_inv q' \<and> cap_ok q' \<and> cap q' = cap q \<and>
        (out, q_list q') = (case q_list q of [] \<Rightarrow> (None, []) | x # xs \<Rightarrow> (Some x, xs))"
    using p(1,2,3) p4 p5 by blast
  have d: "\<forall>r. length (q_list q) \<le> Q_MAX \<longrightarrow>
        (\<exists>q'. coroutines_push q r = Inr q' \<and> q_inv q' \<and> cap_ok q' \<and>
           q_list q' = q_list q @ [r] \<and> start q' \<noteq> endq q' \<and>
           length (q_list q @ [r]) < unat (cap q') \<and> cap q \<le> cap q' \<and>
           (cap q' = cap q \<or> unat (cap q') = max 10 (2 * unat (cap q))))"
  proof (intro allI impI)
    fix x assume n: "length (q_list q) \<le> Q_MAX"
    from push_cap_ok[OF r(2,3) n, of x] obtain q' where
      q': "coroutines_push q x = Inr q'" "q_inv q'" "cap_ok q'" "q_list q' = q_list q @ [x]"
        "cap q \<le> cap q'" "cap q' = cap q \<or> unat (cap q') = max 10 (2 * unat (cap q))" by blast
    have ne: "start q' \<noteq> endq q'" using q_empty_iff[OF q'(2)] q'(4) by simp
    have c0: "cap q' \<noteq> 0" using ne q'(2) by (auto simp: q_inv_def)
    have lt: "length (q_list q @ [x]) < unat (cap q')"
      using q_list_lt_cap[OF q'(2) c0] q'(4) by simp
    show "\<exists>q'. coroutines_push q x = Inr q' \<and> q_inv q' \<and> cap_ok q' \<and>
           q_list q' = q_list q @ [x] \<and> start q' \<noteq> endq q' \<and>
           length (q_list q @ [x]) < unat (cap q') \<and> cap q \<le> cap q' \<and>
           (cap q' = cap q \<or> unat (cap q') = max 10 (2 * unat (cap q)))"
      using q' ne lt by blast
  qed
  show ?thesis using r(1,2,3) l a b e c d unfolding l(1)[symmetric] by blast
qed

text \<open>
  Nine pushes, five pops and five pushes wrap the queued handles around the end of the
  array of ten; the next push finds the array full, doubles it and moves the wrapped
  handles behind the others.
\<close>

theorem queue_invariant_witness:
  "fifo_peak [] (map Push [1, 2, 3, 4, 5, 6, 7, 8, 9] @ replicate 5 Pop @ map Push [10, 11, 12, 13, 14])
     \<le> Q_MAX \<and>
   (\<exists>q outs. run_ops coroutines_zero
        (map Push [1, 2, 3, 4, 5, 6, 7, 8, 9] @ replicate 5 Pop @ map Push [10, 11, 12, 13, 14])
        = Inr (q, outs) \<and>
      q_inv q \<and> cap q = 10 \<and> start q = 5 \<and> endq q = 4 \<and>
      q_list q = [6, 7, 8, 9, 10, 11, 12, 13, 14] \<and>
      (\<exists>q'. coroutines_push q 15 = Inr q' \<and> q_inv q' \<and> cap q' = 20 \<and>
         start q' = 5 \<and> endq q' = 15 \<and>
         q_list q' = [6, 7, 8, 9, 10, 11, 12, 13, 14, 15]))"
proof -
  let ?ops = "map Push [1, 2, 3, 4, 5, 6, 7, 8, 9] @ replicate 5 Pop @ map Push [10, 11, 12, 13, 14]"
  have e: "replicate 5 Pop = [Pop, Pop, Pop, Pop, Pop]" by (simp add: numeral_eq_Suc)
  have a: "fifo_peak [] ?ops \<le> Q_MAX" unfolding e by (simp add: Q_MAX_def)
  have f: "fst (fifo_run [] ?ops) = [6, 7, 8, 9, 10, 11, 12, 13, 14]" unfolding e by simp
  have v: "run_ops coroutines_zero ?ops
     = Inr (\<lparr>routines = [11, 12, 13, 14, 5, 6, 7, 8, 9, 10], start = 5, endq = 4, cap = 10\<rparr>,
            [Some 1, Some 2, Some 3, Some 4, Some 5])"
    by code_simp
  from queue_invariant[OF a] obtain q outs where
    r: "run_ops coroutines_zero ?ops = Inr (q, outs)" "q_inv q"
      "q_list q = fst (fifo_run [] ?ops)"
      "\<forall>r. length (fst (fifo_run [] ?ops)) \<le> Q_MAX \<longrightarrow>
        (\<exists>q'. coroutines_push q r = Inr q' \<and> q_inv q' \<and> cap_ok q' \<and>
           q_list q' = fst (fifo_run [] ?ops) @ [r] \<and> start q' \<noteq> endq q' \<and>
           length (fst (fifo_run [] ?ops) @ [r]) < unat (cap q') \<and> cap q \<le> cap q' \<and>
           (cap q' = cap q \<or> unat (cap q') = max 10 (2 * unat (cap q))))"
    by blast
  have q: "q = \<lparr>routines = [11, 12, 13, 14, 5, 6, 7, 8, 9, 10], start = 5, endq = 4, cap = 10\<rparr>"
    using r(1) v by simp
  have l: "length (fst (fifo_run [] ?ops)) \<le> Q_MAX" unfolding f by (simp add: Q_MAX_def)
  from r(4) l obtain q' where
    p: "coroutines_push q 15 = Inr q'" "q_inv q'" "q_list q' = fst (fifo_run [] ?ops) @ [15]"
    by blast
  have pv: "coroutines_push \<lparr>routines = [11, 12, 13, 14, 5, 6, 7, 8, 9, 10], start = 5, endq = 4, cap = 10\<rparr> 15
     = Inr \<lparr>routines = [11, 12, 13, 14, 5, 6, 7, 8, 9, 10, 11, 12, 13, 14, 15, 0, 0, 0, 0, 0],
            start = 5, endq = 15, cap = 20\<rparr>"
    by code_simp
  have q': "q' = \<lparr>routines = [11, 12, 13, 14, 5, 6, 7, 8, 9, 10, 11, 12, 13, 14, 15, 0, 0, 0, 0, 0],
            start = 5, endq = 15, cap = 20\<rparr>"
    using p(1) pv q by simp
  have g: "cap q = 10" "start q = 5" "endq q = 4" by (simp_all add: q)
  have g': "cap q' = 20" "start q' = 5" "endq q' = 15" by (simp_all add: q')
  have l1: "q_list q = [6, 7, 8, 9, 10, 11, 12, 13, 14]" using r(3) f by simp
  have l2: "q_list q' = [6, 7, 8, 9, 10, 11, 12, 13, 14, 15]" using p(3) f by simp
  show ?thesis using a r(1,2) g l1 p(1,2) g' l2 by blast
qed

text \<open>
  C4 as stated fails: after 2684354559 pushes the queue is full with capacity
  \<open>10 * 2 ^ 28\<close>, and the grow step of the next push sets the capacity to \<open>2 ^ 30\<close>.
\<close>

theorem queue_capacity_counterexample:
  "run_ops coroutines_zero (replicate 2684354559 (Push 0)) =
     Inr (\<lparr>routines = replicate 2684354560 0, start = 0, endq = 2684354559,
           cap = 2684354560\<rparr>, []) \<and>
   map_sum id (\<lambda>(q', nxt). cap q')
     (coroutines_grow \<lparr>routines = replicate 2684354560 0, start = 0, endq = 2684354559,
           cap = 2684354560\<rparr>) = Inr 1073741824"
proof -
  from chain[of 28] obtain q where
    a: "run_ops coroutines_zero (replicate 2684354559 (Push 0)) = Inr (q, [])"
    and f: "q_filled q 2684354560 2684354559" by auto
  have q: "q = \<lparr>routines = replicate 2684354560 0, start = 0, endq = 2684354559, cap = 2684354560\<rparr>"
    using q_filled_eq[OF f] by simp
  from overflow_push(2)[OF f] show ?thesis using a unfolding q by auto
qed

text \<open>
  C6, amended. For a context whose recorded capacity is a non-negative \<^verbatim>\<open>int\<close> and a
  program whose \<^verbatim>\<open>desc_set_size\<close> is at most \<open>2 ^ 31 - 1\<close> (it is stored in an \<^verbatim>\<open>int\<close>),
  every call of \<^verbatim>\<open>prepare_dispatch\<close> that returns has replaced the descriptor-set storage
  only if \<^verbatim>\<open>desc_set_size\<close> strictly exceeded the recorded capacity; the recorded capacity
  afterwards is the larger of the old one and \<^verbatim>\<open>desc_set_size\<close>, so it never decreases; and
  the first \<^verbatim>\<open>desc_set_size\<close> bytes of the storage, which is bound as descriptor set 0, are
  the caller's bytes.
\<close>

theorem prepare_dispatch_storage:
  fixes ctx :: "'w dispatch_context"
  assumes run: "prepare_dispatch ctx h T info ds gx gy gz = Inr (ctx', h')"
    and ty: "0 \<le> desc_set_size ctx" "in_int (desc_set_size ctx)"
    and sz: "info_desc_set_size info < 2147483648"
  shows "(descriptor_set ctx' \<noteq> descriptor_set ctx \<longrightarrow>
            desc_set_size ctx < uint (info_desc_set_size info)) \<and>
     desc_set_size ctx' = max (desc_set_size ctx) (uint (info_desc_set_size info)) \<and>
     desc_set_size ctx \<le> desc_set_size ctx' \<and>
     in_int (desc_set_size ctx') \<and>
     (0 < unat (info_desc_set_size info) \<longrightarrow>
        (\<exists>b. blocks h' (descriptor_set ctx') = Some b \<and>
           unat (info_desc_set_size info) \<le> length b \<and>
           take (unat (info_desc_set_size info)) b = take (unat (info_desc_set_size info)) ds)) \<and>
     descriptor_sets (data ctx') 0 = descriptor_set ctx'"
proof -
  let ?n = "info_desc_set_size info"
  from run obtain ctx1 :: "'w dispatch_context" and h1 ipw spw where
    st: "prepare_storage ctx h info = Inr (ctx1, h1)"
    and p: "descriptor_set ctx' = descriptor_set ctx1" "desc_set_size ctx' = desc_set_size ctx1"
    and d: "data ctx' = (data ctx1)
        \<lparr>workgroup_size := (workgroup_size (data ctx1))
           (0 := uint_of_int (workgroup_size_x info),
            1 := uint_of_int (workgroup_size_y info),
            2 := uint_of_int (workgroup_size_z info)),
         num_workgroups := (num_workgroups (data ctx1))
           (0 := uint_of_int gx, 1 := uint_of_int gy, 2 := uint_of_int gz),
         invocations_per_subgroup := uint_of_int SIMD_WIDTH,
         invocations_per_workgroup := uint_of_int ipw,
         subgroups_per_workgroup := uint_of_int spw,
         descriptor_sets := (descriptor_sets (data ctx1))(0 := descriptor_set ctx1)\<rparr>"
    by (rule prepare_dispatch_Inr)
  have cmp: "size_t_of_int (desc_set_size ctx) < ?n \<longleftrightarrow> desc_set_size ctx < uint ?n"
    using size_t_of_int_less_iff[OF ty(2) sz] ty(1) by simp
  have un: "uint ?n < 2147483648" "0 \<le> uint ?n" using sz by (simp_all add: word_less_def)
  have a: "descriptor_set ctx' \<noteq> descriptor_set ctx \<longrightarrow> desc_set_size ctx < uint ?n"
    using prepare_storage_Inr(1)[OF st] p cmp by (auto split: if_splits)
  have b: "desc_set_size ctx' = max (desc_set_size ctx) (uint ?n)"
  proof (cases "size_t_of_int (desc_set_size ctx) < ?n")
    case True
    then have "desc_set_size ctx1 = int_of_size_t ?n"
      using prepare_storage_Inr(1)[OF st] by simp
    then show ?thesis using True cmp p int_of_size_t_31(1)[OF sz] by simp
  next
    case False
    then show ?thesis using prepare_storage_Inr(1)[OF st] cmp p by simp
  qed
  have c: "in_int (desc_set_size ctx')" using b ty un by (auto simp: in_int_iff max_def)
  have e: "0 < unat ?n \<longrightarrow>
        (\<exists>b. blocks h' (descriptor_set ctx') = Some b \<and> unat ?n \<le> length b \<and>
           take (unat ?n) b = take (unat ?n) ds)"
    using prepare_dispatch_contents[OF run] by blast
  have f: "descriptor_sets (data ctx') 0 = descriptor_set ctx'" using d p by simp
  show ?thesis using a b c e f by simp
qed

text \<open>The specification's example: a 64-byte set, then a 32-byte set; the capacity stays 64.\<close>

theorem prepare_dispatch_storage_witness:
  "\<exists>c1 h1 c2 h2.
     prepare_dispatch (alloc_dispatch_context :: unit dispatch_context) (heap_init 4096) 2
       (info_sized 64) (replicate 64 7) 1 1 1 = Inr (c1, h1) \<and>
     0 \<le> desc_set_size c1 \<and> in_int (desc_set_size c1) \<and>
     info_desc_set_size (info_sized 32) < 2147483648 \<and>
     prepare_dispatch c1 h1 2 (info_sized 32) (replicate 32 9) 1 1 1 = Inr (c2, h2) \<and>
     desc_set_size c1 = 64 \<and> desc_set_size c2 = 64 \<and>
     take 32 (the (blocks h2 (descriptor_set c2))) = replicate 32 9"
proof -
  obtain c1 :: "unit dispatch_context" and h1 where
    a: "prepare_dispatch alloc_dispatch_context (heap_init 4096) 2
       (info_sized 64) (replicate 64 7) 1 1 1 = Inr (c1, h1)"
    and a1: "desc_set_size c1 = 64"
    by (simp add: prepare_dispatch_def prepare_storage_def subgroup_counts_def c_memcpy_def
        malloc_align_def posix_memalign_def alloc_dispatch_context_def heap_init_def info_sized_def
        size_t_of_int_def int_of_size_t_def int_mul_def int_add_def int_sub_def int_div_def
        int_result_def in_int_iff SIMD_WIDTH_def Let_def)
  obtain c2 :: "unit dispatch_context" and h2 where
    b: "prepare_dispatch c1 h1 2 (info_sized 32) (replicate 32 9) 1 1 1 = Inr (c2, h2)"
    using a
    by (auto simp: prepare_dispatch_def prepare_storage_def subgroup_counts_def c_memcpy_def
        malloc_align_def posix_memalign_def alloc_dispatch_context_def heap_init_def info_sized_def
        size_t_of_int_def int_of_size_t_def int_mul_def int_add_def int_sub_def int_div_def
        int_result_def in_int_iff SIMD_WIDTH_def Let_def)
  have t: "0 \<le> desc_set_size c1" "in_int (desc_set_size c1)" using a1 by (simp_all add: in_int_iff)
  have s: "info_desc_set_size (info_sized 32) < 2147483648" by (simp add: info_sized_def)
  have u: "unat (info_desc_set_size (info_sized 32)) = 32" "uint (info_desc_set_size (info_sized 32)) = 32"
    by (simp_all add: info_sized_def)
  from prepare_dispatch_storage[OF b t s] a b a1 t s show ?thesis
    unfolding u by auto
qed

text \<open>
  C6 as stated fails: after a call with a 64-byte set, a call with a set of \<open>2 ^ 32\<close> bytes
  allocates and records the capacity \<open>(int) 2 ^ 32 = 0\<close>.
\<close>

theorem prepare_dispatch_capacity_counterexample:
  "(case prepare_dispatch (alloc_dispatch_context :: unit dispatch_context) (heap_init (2 ^ 40)) 1
          (info_sized 64) (replicate 64 0) 1 1 1 of
      Inl e \<Rightarrow> Inl e
    | Inr (c1, h1) \<Rightarrow>
        map_sum id (\<lambda>(c2, h2). (desc_set_size c1, desc_set_size c2))
          (prepare_dispatch c1 h1 1 (info_sized 4294967296) (replicate 4294967296 0) 1 1 1))
   = Inr (64, 0)"
  by (simp add: prepare_dispatch_def prepare_storage_def subgroup_counts_def c_memcpy_def
        malloc_align_def posix_memalign_def c_free_def alloc_dispatch_context_def heap_init_def
        info_sized_def size_t_of_int_def int_of_size_t_def int_mul_def int_add_def int_sub_def
        int_div_def int_result_def in_int_iff SIMD_WIDTH_def Let_def)

text \<open>
  C7. After a call of \<^verbatim>\<open>prepare_dispatch\<close> that returned, every second call with the same
  arguments that returns leaves an equivalent context (\<open>ctx_equiv\<close>): all scalar fields,
  the entry points, the fields of \<open>data\<close> and the bytes of the descriptor set are equal,
  and only the address of the buffer may differ. When \<^verbatim>\<open>desc_set_size\<close> is at most
  \<open>2 ^ 31 - 1\<close> the second call does return, and with the very same context and heap.
\<close>

theorem prepare_dispatch_idempotent:
  fixes ctx :: "'w dispatch_context"
  assumes first: "prepare_dispatch ctx h T info ds gx gy gz = Inr (ctx1, h1)"
  shows "(\<forall>ctx2 h2. prepare_dispatch ctx1 h1 T info ds gx gy gz = Inr (ctx2, h2) \<longrightarrow>
            ctx_equiv ctx1 h1 ctx2 h2) \<and>
     (info_desc_set_size info < 2147483648 \<longrightarrow>
        prepare_dispatch ctx1 h1 T info ds gx gy gz = Inr (ctx1, h1))"
proof (intro conjI allI impI)
  fix ctx2 :: "'w dispatch_context" and h2
  assume second: "prepare_dispatch ctx1 h1 T info ds gx gy gz = Inr (ctx2, h2)"
  let ?n = "unat (info_desc_set_size info)"
  have "blocks h2 (descriptor_set ctx2) = blocks h1 (descriptor_set ctx1)"
  proof (cases "?n = 0")
    case True
    from second obtain c1 :: "'w dispatch_context" and g1 where
      b1: "prepare_storage ctx1 h1 info = Inr (c1, g1)"
      and b2: "c_memcpy g1 (descriptor_set c1) ds ?n = Inr h2"
      and b4: "descriptor_set ctx2 = descriptor_set c1"
      by (rule prepare_dispatch_Inr)
    have "info_desc_set_size info = 0" using True by (simp add: unat_eq_zero)
    then have "\<not> size_t_of_int (desc_set_size ctx1) < info_desc_set_size info" by simp
    then have "c1 = ctx1" "g1 = h1" using prepare_storage_Inr(1)[OF b1] by simp_all
    moreover have "h2 = g1" using c_memcpy_Inr[OF b2] True by simp
    ultimately show ?thesis using b4 by simp
  next
    case False
    then have n: "0 < ?n" by simp
    from prepare_dispatch_block[OF first n] obtain b1 where
      f: "blocks h1 (descriptor_set ctx1) = Some b1" "?n \<le> length ds" "?n \<le> length b1"
      "take ?n b1 = take ?n ds" by blast
    from second obtain c1 :: "'w dispatch_context" and g1 where
      s1: "prepare_storage ctx1 h1 info = Inr (c1, g1)"
      and s2: "c_memcpy g1 (descriptor_set c1) ds ?n = Inr h2"
      and s4: "descriptor_set ctx2 = descriptor_set c1"
      by (rule prepare_dispatch_Inr)
    from c_memcpy_Inr[OF s2] n obtain old where
      o: "blocks g1 (descriptor_set c1) = Some old" "?n \<le> length old"
      "h2 = g1\<lparr>blocks := (blocks g1)(descriptor_set c1 \<mapsto> take ?n ds @ drop ?n old)\<rparr>"
      by auto
    have b2: "blocks h2 (descriptor_set ctx2) = Some (take ?n ds @ drop ?n old)"
      using o s4 by simp
    show ?thesis
    proof (cases "size_t_of_int (desc_set_size ctx1) < info_desc_set_size info")
      case re2: True
      then have lo: "old = replicate ?n 0" using prepare_storage_Inr(1)[OF s1] o(1) by simp
      have re1: "size_t_of_int (desc_set_size ctx) < info_desc_set_size info"
      proof (rule ccontr)
        assume no: "\<not> size_t_of_int (desc_set_size ctx) < info_desc_set_size info"
        from first obtain c0 :: "'w dispatch_context" and g0 where
          a1: "prepare_storage ctx h info = Inr (c0, g0)"
          and a4: "desc_set_size ctx1 = desc_set_size c0"
          by (rule prepare_dispatch_Inr)
        have "c0 = ctx" using prepare_storage_Inr(1)[OF a1] no by simp
        then show False using re2 no a4 by simp
      qed
      from prepare_dispatch_block[OF first n] f(1) re1 have "length b1 = ?n" by auto
      then have "b1 = take ?n ds" using f(4) by simp
      then show ?thesis using b2 f(1) lo by simp
    next
      case no2: False
      then have "c1 = ctx1" "g1 = h1" using prepare_storage_Inr(1)[OF s1] by simp_all
      then have "old = b1" using o(1) f(1) by simp
      moreover have "take ?n ds @ drop ?n b1 = b1"
        using f(4)[symmetric] by simp
      ultimately show ?thesis using b2 f(1) by simp
    qed
  qed
  then show "ctx_equiv ctx1 h1 ctx2 h2"
    using prepare_dispatch_fields_eq[OF first second] unfolding ctx_equiv_def by simp
next
  assume sz: "info_desc_set_size info < 2147483648"
  let ?n = "unat (info_desc_set_size info)"
  from first obtain c0 :: "'w dispatch_context" and g0 ipw spw where
    a1: "prepare_storage ctx h info = Inr (c0, g0)"
    and a2: "c_memcpy g0 (descriptor_set c0) ds ?n = Inr h1"
    and a3: "subgroup_counts info = Inr (ipw, spw)"
    and a4: "descriptor_set ctx1 = descriptor_set c0" "desc_set_size ctx1 = desc_set_size c0"
      "has_cbarriers ctx1 = info_has_cbarriers info" "routine_begin ctx1 = info_begin info"
      "routine_await ctx1 = info_await info" "routine_destroy ctx1 = info_destroy info"
      "nthreads ctx1 = T" "memory_size ctx1 = min_memory_size info"
    and a5: "data ctx1 = (data c0)
        \<lparr>workgroup_size := (workgroup_size (data c0))
           (0 := uint_of_int (workgroup_size_x info),
            1 := uint_of_int (workgroup_size_y info),
            2 := uint_of_int (workgroup_size_z info)),
         num_workgroups := (num_workgroups (data c0))
           (0 := uint_of_int gx, 1 := uint_of_int gy, 2 := uint_of_int gz),
         invocations_per_subgroup := uint_of_int SIMD_WIDTH,
         invocations_per_workgroup := uint_of_int ipw,
         subgroups_per_workgroup := uint_of_int spw,
         descriptor_sets := (descriptor_sets (data c0))(0 := descriptor_set c0)\<rparr>"
    by (rule prepare_dispatch_Inr)
  have no: "\<not> size_t_of_int (desc_set_size ctx1) < info_desc_set_size info"
  proof (cases "size_t_of_int (desc_set_size ctx) < info_desc_set_size info")
    case True
    then have "desc_set_size c0 = int_of_size_t (info_desc_set_size info)"
      using prepare_storage_Inr(1)[OF a1] by simp
    then show ?thesis using a4 int_of_size_t_31(2)[OF sz] by simp
  next
    case False
    then have "c0 = ctx" using prepare_storage_Inr(1)[OF a1] by simp
    then show ?thesis using False a4 by simp
  qed
  then have st: "prepare_storage ctx1 h1 info = Inr (ctx1, h1)" by (simp add: prepare_storage_def)
  have mc: "c_memcpy h1 (descriptor_set ctx1) ds ?n = Inr h1"
  proof (cases "?n = 0")
    case True
    then show ?thesis by (simp add: c_memcpy_def)
  next
    case False
    then have n: "0 < ?n" by simp
    from prepare_dispatch_contents[OF first n] obtain b where
      f: "blocks h1 (descriptor_set ctx1) = Some b" "?n \<le> length b" "?n \<le> length ds"
      "take ?n b = take ?n ds" "descriptor_set ctx1 \<noteq> NULL" by blast
    have "take ?n ds @ drop ?n b = b" using f(4)[symmetric] by simp
    then have "(blocks h1)(descriptor_set ctx1 \<mapsto> take ?n ds @ drop ?n b) = blocks h1"
      using f(1) by (simp add: fun_upd_idem)
    then show ?thesis using f False by (simp add: c_memcpy_def)
  qed
  have "ctx1\<lparr>has_cbarriers := info_has_cbarriers info, routine_begin := info_begin info,
            routine_await := info_await info, routine_destroy := info_destroy info,
            nthreads := T, memory_size := min_memory_size info,
            data := (data ctx1)
              \<lparr>workgroup_size := (workgroup_size (data ctx1))
                 (0 := uint_of_int (workgroup_size_x info),
                  1 := uint_of_int (workgroup_size_y info),
                  2 := uint_of_int (workgroup_size_z info)),
               num_workgroups := (num_workgroups (data ctx1))
                 (0 := uint_of_int gx, 1 := uint_of_int gy, 2 := uint_of_int gz),
               invocations_per_subgroup := uint_of_int SIMD_WIDTH,
               invocations_per_workgroup := uint_of_int ipw,
               subgroups_per_workgroup := uint_of_int spw,
               descriptor_sets := (descriptor_sets (data ctx1))(0 := descriptor_set ctx1)\<rparr>\<rparr> = ctx1"
    using a4 a5 by (cases ctx1) simp
  then show "prepare_dispatch ctx1 h1 T info ds gx gy gz = Inr (ctx1, h1)"
    using st mc a3 by (simp add: prepare_dispatch_def)
qed

text \<open>A 4-byte descriptor set prepared twice on a fresh context.\<close>

theorem prepare_dispatch_idempotent_witness:
  "\<exists>c1 h1.
     prepare_dispatch (alloc_dispatch_context :: unit dispatch_context) (heap_init 4096) 2
       (info_sized 4) [1, 2, 3, 4, 5] 2 1 1 = Inr (c1, h1) \<and>
     info_desc_set_size (info_sized 4) < 2147483648 \<and>
     prepare_dispatch c1 h1 2 (info_sized 4) [1, 2, 3, 4, 5] 2 1 1 = Inr (c1, h1) \<and>
     ctx_equiv c1 h1 c1 h1 \<and> blocks h1 (descriptor_set c1) = Some [1, 2, 3, 4]"
proof -
  obtain c1 :: "unit dispatch_context" and h1 where
    a: "prepare_dispatch alloc_dispatch_context (heap_init 4096) 2
       (info_sized 4) [1, 2, 3, 4, 5] 2 1 1 = Inr (c1, h1)"
    and b: "blocks h1 (descriptor_set c1) = Some [1, 2, 3, 4]"
    by (simp add: eval_prepare)
  have s: "info_desc_set_size (info_sized 4) < 2147483648" by (simp add: info_sized_def)
  from prepare_dispatch_idempotent[OF a] s a b show ?thesis by auto
qed

text \<open>
  C10. The invariant \<open>desc_inv\<close> (a positive recorded size comes with a buffer) holds of
  the context \<^verbatim>\<open>alloc_dispatch_context\<close> returns and is kept by every call of
  \<^verbatim>\<open>prepare_dispatch\<close> that returns. \<^verbatim>\<open>free_dispatch_context\<close> returns whenever the
  pointer is null or a live block, and when it returns it has removed the block of a
  non-null pointer from the heap (and nothing else), set the pointer to null and left every
  other field, the recorded size among them, as it was. So it breaks the invariant whenever
  that size is positive; every later \<^verbatim>\<open>prepare_dispatch\<close> on that context with a positive
  \<^verbatim>\<open>desc_set_size\<close> of at most the stale size skips the allocation and copies to the null
  pointer.
\<close>

theorem free_dispatch_context_stale_size:
  "desc_inv (alloc_dispatch_context :: 'w dispatch_context) \<and>
   (\<forall>(ctx :: 'w dispatch_context) h T info ds gx gy gz ctx' h'.
      desc_inv ctx \<and> prepare_dispatch ctx h T info ds gx gy gz = Inr (ctx', h')
      \<longrightarrow> desc_inv ctx') \<and>
   (\<forall>(ctx :: 'w dispatch_context) (h :: heap).
      descriptor_set ctx = NULL \<or> descriptor_set ctx \<in> dom (blocks h) \<longrightarrow>
        free_dispatch_context ctx h =
          Inr (ctx\<lparr>descriptor_set := NULL\<rparr>,
               if descriptor_set ctx = NULL then h
               else h\<lparr>blocks := (blocks h)(descriptor_set ctx := None)\<rparr>)) \<and>
   (\<forall>(ctx :: 'w dispatch_context) (h :: heap) ctx' h'.
      free_dispatch_context ctx h = Inr (ctx', h') \<longrightarrow>
        ctx' = ctx\<lparr>descriptor_set := NULL\<rparr> \<and>
        (descriptor_set ctx = NULL \<or> descriptor_set ctx \<in> dom (blocks h)) \<and>
        h' = (if descriptor_set ctx = NULL then h
              else h\<lparr>blocks := (blocks h)(descriptor_set ctx := None)\<rparr>) \<and>
        (descriptor_set ctx \<noteq> NULL \<longrightarrow> descriptor_set ctx \<notin> dom (blocks h')) \<and>
        descriptor_set ctx' = NULL \<and> desc_set_size ctx' = desc_set_size ctx \<and>
        (0 < desc_set_size ctx \<longrightarrow> \<not> desc_inv ctx') \<and>
        (\<forall>T info ds gx gy gz.
           0 < info_desc_set_size info \<and>
           info_desc_set_size info \<le> size_t_of_int (desc_set_size ctx')
           \<longrightarrow> prepare_dispatch ctx' h' T info ds gx gy gz = Inl NullPointer))"
proof (intro conjI allI impI)
  show "desc_inv (alloc_dispatch_context :: 'w dispatch_context)"
    by (simp add: desc_inv_def alloc_dispatch_context_def)
next
  fix ctx ctx' :: "'w dispatch_context" and h T info ds gx gy gz h'
  assume a: "desc_inv ctx \<and> prepare_dispatch ctx h T info ds gx gy gz = Inr (ctx', h')"
  then obtain c1 :: "'w dispatch_context" and h1 where
    st: "prepare_storage ctx h info = Inr (c1, h1)"
    and p: "descriptor_set ctx' = descriptor_set c1" "desc_set_size ctx' = desc_set_size c1"
    by (auto elim: prepare_dispatch_Inr)
  show "desc_inv ctx'"
    using prepare_storage_Inr(1)[OF st] a p by (auto simp: desc_inv_def split: if_splits)
next
  fix ctx :: "'w dispatch_context" and h :: heap
  assume "descriptor_set ctx = NULL \<or> descriptor_set ctx \<in> dom (blocks h)"
  then show "free_dispatch_context ctx h =
          Inr (ctx\<lparr>descriptor_set := NULL\<rparr>,
               if descriptor_set ctx = NULL then h
               else h\<lparr>blocks := (blocks h)(descriptor_set ctx := None)\<rparr>)"
    by (auto simp: free_dispatch_context_def c_free_def)
next
  fix ctx ctx' :: "'w dispatch_context" and h h' :: heap
  assume f: "free_dispatch_context ctx h = Inr (ctx', h')"
  show c: "ctx' = ctx\<lparr>descriptor_set := NULL\<rparr>"
    using f by (auto simp: free_dispatch_context_def split: if_splits sum.splits)
  show "descriptor_set ctx = NULL \<or> descriptor_set ctx \<in> dom (blocks h)"
    using f by (auto simp: free_dispatch_context_def c_free_def split: if_splits sum.splits)
  show hh: "h' = (if descriptor_set ctx = NULL then h
              else h\<lparr>blocks := (blocks h)(descriptor_set ctx := None)\<rparr>)"
    using f by (auto simp: free_dispatch_context_def c_free_def split: if_splits sum.splits)
  show "descriptor_set ctx \<notin> dom (blocks h')" if "descriptor_set ctx \<noteq> NULL"
    using that hh by simp
  show n: "descriptor_set ctx' = NULL" using c by simp
  show s: "desc_set_size ctx' = desc_set_size ctx" using c by simp
  show "\<not> desc_inv ctx'" if "0 < desc_set_size ctx"
    using that n s by (simp add: desc_inv_def)
  fix T :: int and info :: "'w program_info" and ds gx gy gz
  assume i: "0 < info_desc_set_size info \<and> info_desc_set_size info \<le> size_t_of_int (desc_set_size ctx')"
  then have st: "prepare_storage ctx' h' info = Inr (ctx', h')"
    by (simp add: prepare_storage_def not_less[symmetric])
  have "info_desc_set_size info \<noteq> 0" using i by auto
  then have "unat (info_desc_set_size info) \<noteq> 0" by (simp add: unat_eq_zero)
  then have "c_memcpy h' (descriptor_set ctx') ds (unat (info_desc_set_size info)) = Inl NullPointer"
    using n by (simp add: c_memcpy_def)
  then show "prepare_dispatch ctx' h' T info ds gx gy gz = Inl NullPointer"
    using st by (simp add: prepare_dispatch_def)
qed

text \<open>Prepare with 4 bytes, free (the block at 16 is gone), prepare with 3 bytes.\<close>

theorem free_dispatch_context_stale_size_witness:
  "\<exists>c1 h1 c2 h2.
     prepare_dispatch (alloc_dispatch_context :: unit dispatch_context) (heap_init 4096) 2
       (info_sized 4) [1, 2, 3, 4, 5] 2 1 1 = Inr (c1, h1) \<and>
     desc_inv c1 \<and> desc_set_size c1 = 4 \<and> descriptor_set c1 = 16 \<and>
     blocks h1 16 = Some [1, 2, 3, 4] \<and>
     free_dispatch_context c1 h1 = Inr (c2, h2) \<and>
     blocks h2 16 = None \<and> h2 = h1\<lparr>blocks := (blocks h1)(16 := None)\<rparr> \<and>
     c2 = c1\<lparr>descriptor_set := NULL\<rparr> \<and>
     descriptor_set c2 = NULL \<and> desc_set_size c2 = 4 \<and> \<not> desc_inv c2 \<and>
     0 < info_desc_set_size (info_sized 3) \<and>
     info_desc_set_size (info_sized 3) \<le> size_t_of_int (desc_set_size c2) \<and>
     prepare_dispatch c2 h2 2 (info_sized 3) [6, 7, 8] 2 1 1 = Inl NullPointer"
proof -
  obtain c1 :: "unit dispatch_context" and h1 where
    a: "prepare_dispatch alloc_dispatch_context (heap_init 4096) 2
       (info_sized 4) [1, 2, 3, 4, 5] 2 1 1 = Inr (c1, h1)"
    and b: "desc_set_size c1 = 4" "descriptor_set c1 = 16" "blocks h1 16 = Some [1, 2, 3, 4]"
    by (simp add: eval_prepare)
  note t = free_dispatch_context_stale_size[where 'w = unit]
  note t1 = t[THEN conjunct1]
  note t2 = t[THEN conjunct2, THEN conjunct1, rule_format]
  note t3 = t[THEN conjunct2, THEN conjunct2, THEN conjunct1, rule_format]
  note t4 = t[THEN conjunct2, THEN conjunct2, THEN conjunct2, rule_format]
  have d: "descriptor_set c1 = NULL \<or> descriptor_set c1 \<in> dom (blocks h1)"
    using b by (simp add: dom_def)
  define h2 where "h2 = h1\<lparr>blocks := (blocks h1)(16 := None)\<rparr>"
  define c2 where "c2 = c1\<lparr>descriptor_set := NULL\<rparr>"
  have f: "free_dispatch_context c1 h1 = Inr (c2, h2)"
    using t3[OF d] b(2) by (simp add: h2_def c2_def)
  have i1: "desc_inv c1" using t2[OF conjI[OF t1 a]] .
  have g: "descriptor_set c2 = NULL" "desc_set_size c2 = 4"
    using b(1) by (simp_all add: c2_def)
  have g3: "\<not> desc_inv c2" using g by (simp add: desc_inv_def)
  have k: "blocks h2 16 = None" by (simp add: h2_def)
  have j: "0 < info_desc_set_size (info_sized 3)"
    "info_desc_set_size (info_sized 3) \<le> size_t_of_int (desc_set_size c2)"
    using g(2) by (simp_all add: info_sized_def size_t_of_int_def)
  have "prepare_dispatch c2 h2 2 (info_sized 3) [6, 7, 8] 2 1 1 = Inl NullPointer"
    using t4[OF f] j by blast
  then have "prepare_dispatch alloc_dispatch_context (heap_init 4096) 2
       (info_sized 4) [1, 2, 3, 4, 5] 2 1 1 = Inr (c1, h1) \<and>
     desc_inv c1 \<and> desc_set_size c1 = 4 \<and> descriptor_set c1 = 16 \<and>
     blocks h1 16 = Some [1, 2, 3, 4] \<and>
     free_dispatch_context c1 h1 = Inr (c2, h2) \<and>
     blocks h2 16 = None \<and> h2 = h1\<lparr>blocks := (blocks h1)(16 := None)\<rparr> \<and>
     c2 = c1\<lparr>descriptor_set := NULL\<rparr> \<and>
     descriptor_set c2 = NULL \<and> desc_set_size c2 = 4 \<and> \<not> desc_inv c2 \<and>
     0 < info_desc_set_size (info_sized 3) \<and>
     info_desc_set_size (info_sized 3) \<le> size_t_of_int (desc_set_size c2) \<and>
     prepare_dispatch c2 h2 2 (info_sized 3) [6, 7, 8] 2 1 1 = Inl NullPointer"
    using a i1 b f g g3 j k h2_def c2_def by (intro conjI)
  then show ?thesis by (intro exI)
qed

text \<open>
  C1. Let every \<^verbatim>\<open>await\<close> report finished after finitely many calls (\<open>finishing\<close>), the
  context have its entry points, the thread context come with an empty queue (as
  \<^verbatim>\<open>alloc_thread_context\<close> and every earlier dispatch leave it) and its scratch memory be
  there, and the dispatch stay within \<^verbatim>\<open>int\<close>: at least one thread, a grid of at most
  \<open>2 ^ 31 - nthreads\<close> workgroups, and with control barriers fewer than \<open>2 ^ 31\<close> subgroups
  per workgroup. Then \<^verbatim>\<open>dispatch_thread\<close> returns: the drain loop terminates for every
  workgroup index of the thread. The queue it leaves is empty (\<open>start = endq\<close>). The program
  state it leaves is the state after the calls of the trace, the calls of \<^verbatim>\<open>destroy\<close>
  among them. The trace keeps the queue discipline (\<open>live_after\<close>): every loop body starts
  with no live handle, only live handles are awaited or destroyed, so no handle is awaited
  or destroyed after its \<^verbatim>\<open>destroy\<close>, and no handle is live at the end; the handles
  destroyed are the handles \<^verbatim>\<open>begin\<close> returned, each as often as it was returned.
  The same holds of the loop body alone, for any index whose coordinates are computed and
  any empty queue: it returns and leaves the queue empty.
\<close>

theorem dispatch_thread_retires_coroutines:
  fixes ctx :: "'w dispatch_context"
  assumes fin: "finishing ctx left" and ep: "has_entry_points ctx"
    and sp: "has_cbarriers ctx \<noteq> 0 \<longrightarrow> unat (subgroups_per_workgroup (data ctx)) < 2147483648"
    and T: "0 < nthreads ctx" and t: "0 \<le> t"
    and gx: "sx = int_of_uint (num_workgroups (data ctx) 0)"
    and gy: "sy = int_of_uint (num_workgroups (data ctx) 1)"
    and gz: "sz = int_of_uint (num_workgroups (data ctx) 2)"
    and sx: "0 \<le> sx" and sy: "0 \<le> sy" and sz: "0 \<le> sz" and xy: "sx * sy \<le> 2147483647"
    and nT: "sx * sy * sz + nthreads ctx \<le> 2147483648"
    and em: "ensure_memory ctx thread h = Inr (thread1, h1)"
    and inv: "q_inv (thread_routines thread)" and e: "q_list (thread_routines thread) = []"
  shows "(\<exists>q' w' tr.
       dispatch_thread ctx t thread h w
         = Some (Inr (thread1\<lparr>thread_routines := q'\<rparr>, h1, w', tr)) \<and>
       q_inv q' \<and> start q' = endq q' \<and> q_list q' = [] \<and>
       map fst (groups_of tr) = thread_indices (nthreads ctx) (sx * sy * sz) t \<and>
       replay ctx tr w = Some w' \<and> live_after tr {#} = Some {#} \<and>
       mset (destroyed tr) = mset (begun tr)) \<and>
     (\<forall>i x y z mem q w0 tr0.
        q_inv q \<and> q_list q = [] \<and> group_coords sx sy i = Inr (x, y, z) \<longrightarrow>
        (\<exists>q' w' new.
           workgroup ctx mem sx sy i (q, w0, tr0) = Some (Inr (q', w', tr0 @ new)) \<and>
           q_inv q' \<and> start q' = endq q' \<and> q_list q' = [] \<and>
           groups_of new = [(i, x, y, z)] \<and>
           replay ctx new w0 = Some w' \<and> live_after new {#} = Some {#} \<and>
           mset (destroyed new) = mset (begun new)))"
proof (intro conjI allI impI)
  from dispatch_thread_total[OF fin ep sp T t gx gy gz sx sy sz xy nT em inv e, of w]
  obtain q' w' tr where
    r: "dispatch_thread ctx t thread h w
         = Some (Inr (thread1\<lparr>thread_routines := q'\<rparr>, h1, w', tr))"
      "q_inv q'" "q_list q' = []"
      "mset (destroyed tr) = mset (begun tr)"
      "groups_of tr = map (coords_of sx sy) (thread_indices (nthreads ctx) (sx * sy * sz) t)"
      "replay ctx tr w = Some w'" "live_after tr {#} = Some {#}" by blast
  have s: "start q' = endq q'" using q_empty_iff[OF r(2)] r(3) by simp
  have g: "map fst (groups_of tr) = thread_indices (nthreads ctx) (sx * sy * sz) t"
    unfolding r(5) by (simp add: comp_def coords_of_def)
  show "\<exists>q' w' tr.
       dispatch_thread ctx t thread h w
         = Some (Inr (thread1\<lparr>thread_routines := q'\<rparr>, h1, w', tr)) \<and>
       q_inv q' \<and> start q' = endq q' \<and> q_list q' = [] \<and>
       map fst (groups_of tr) = thread_indices (nthreads ctx) (sx * sy * sz) t \<and>
       replay ctx tr w = Some w' \<and> live_after tr {#} = Some {#} \<and>
       mset (destroyed tr) = mset (begun tr)"
    using r(1,2,3,4,6,7) s g by blast
next
  fix i x y z mem q w0 tr0
  assume a: "q_inv q \<and> q_list q = [] \<and> group_coords sx sy i = Inr (x, y, z)"
  then have inv': "q_inv q" and e': "q_list q = []" and co: "group_coords sx sy i = Inr (x, y, z)"
    by simp_all
  from workgroup_full[OF fin ep sp inv' e' co, of mem w0 tr0] obtain q' w' new where
    r: "workgroup ctx mem sx sy i (q, w0, tr0) = Some (Inr (q', w', tr0 @ new))"
      "q_inv q'" "q_list q' = []" "mset (destroyed new) = mset (begun new)"
      "groups_of new = [(i, x, y, z)]"
      "replay ctx new w0 = Some w'" "live_after new {#} = Some {#}" by blast
  have s: "start q' = endq q'" using q_empty_iff[OF r(2)] r(3) by simp
  show "\<exists>q' w' new.
           workgroup ctx mem sx sy i (q, w0, tr0) = Some (Inr (q', w', tr0 @ new)) \<and>
           q_inv q' \<and> start q' = endq q' \<and> q_list q' = [] \<and>
           groups_of new = [(i, x, y, z)] \<and>
           replay ctx new w0 = Some w' \<and> live_after new {#} = Some {#} \<and>
           mset (destroyed new) = mset (begun new)"
    using r s by blast
qed

text \<open>
  Thread 1 of 2 on a \<open>2 \<times> 2 \<times> 1\<close> grid of the example program with control barriers:
  the workgroups 1 and 3, two coroutines each, the second of which suspends once. No token
  is left.
\<close>

theorem dispatch_thread_retires_coroutines_witness:
  "\<exists>th1 h1 q' w'.
     finishing (countdown_ctx 1 2 2 2 1) countdown_left \<and>
     has_entry_points (countdown_ctx 1 2 2 2 1) \<and>
     has_cbarriers (countdown_ctx 1 2 2 2 1) \<noteq> 0 \<and>
     unat (subgroups_per_workgroup (data (countdown_ctx 1 2 2 2 1))) = 2 \<and>
     nthreads (countdown_ctx 1 2 2 2 1) = 2 \<and>
     int_of_uint (num_workgroups (data (countdown_ctx 1 2 2 2 1)) 0) = 2 \<and>
     int_of_uint (num_workgroups (data (countdown_ctx 1 2 2 2 1)) 1) = 2 \<and>
     int_of_uint (num_workgroups (data (countdown_ctx 1 2 2 2 1)) 2) = 1 \<and>
     ensure_memory (countdown_ctx 1 2 2 2 1) alloc_thread_context (heap_init 4096) = Inr (th1, h1) \<and>
     q_inv (thread_routines alloc_thread_context) \<and>
     q_list (thread_routines alloc_thread_context) = [] \<and>
     dispatch_thread (countdown_ctx 1 2 2 2 1) 1 alloc_thread_context (heap_init 4096)
        (0, \<lambda>r. 0, []) =
       Some (Inr (th1\<lparr>thread_routines := q'\<rparr>, h1, w',
         [Workgroup 1 1 0 0, Begin 1 0 0 16 0 1 1, Begin 1 0 0 16 1 1 2,
          Await 1 0, Destroy 1, Await 2 1, Await 2 0, Destroy 2,
          Workgroup 3 1 1 0, Begin 1 1 0 16 0 1 3, Begin 1 1 0 16 1 1 4,
          Await 3 0, Destroy 3, Await 4 1, Await 4 0, Destroy 4])) \<and>
     start q' = 6 \<and> endq q' = 6 \<and> q_list q' = [] \<and>
     thread_indices 2 (2 * 2 * 1) 1 = [1, 3] \<and>
     replay (countdown_ctx 1 2 2 2 1)
         [Workgroup 1 1 0 0, Begin 1 0 0 16 0 1 1, Begin 1 0 0 16 1 1 2,
          Await 1 0, Destroy 1, Await 2 1, Await 2 0, Destroy 2,
          Workgroup 3 1 1 0, Begin 1 1 0 16 0 1 3, Begin 1 1 0 16 1 1 4,
          Await 3 0, Destroy 3, Await 4 1, Await 4 0, Destroy 4] (0, \<lambda>r. 0, []) = Some w' \<and>
     fst w' = 4 \<and> snd (snd w') = [] \<and>
     live_after
         [Workgroup 1 1 0 0, Begin 1 0 0 16 0 1 1, Begin 1 0 0 16 1 1 2,
          Await 1 0, Destroy 1, Await 2 1, Await 2 0, Destroy 2,
          Workgroup 3 1 1 0, Begin 1 1 0 16 0 1 3, Begin 1 1 0 16 1 1 4,
          Await 3 0, Destroy 3, Await 4 1, Await 4 0, Destroy 4] {#} = Some {#}"
proof -
  let ?c = "countdown_ctx 1 2 2 2 1"
  let ?w = "(0 :: nat, \<lambda>r :: nat. 0 :: nat, [] :: nat list)"
  let ?tr = "[Workgroup 1 1 0 0, Begin 1 0 0 16 0 1 1, Begin 1 0 0 16 1 1 2,
          Await 1 0, Destroy 1, Await 2 1, Await 2 0, Destroy 2,
          Workgroup 3 1 1 0, Begin 1 1 0 16 0 1 3, Begin 1 1 0 16 1 1 4,
          Await 3 0, Destroy 3, Await 4 1, Await 4 0, Destroy 4]"
  have fin: "finishing ?c countdown_left" by (rule countdown_finishing)
  have ep: "has_entry_points ?c" by (rule countdown_entry_points)
  have cb: "has_cbarriers ?c \<noteq> 0" by (simp add: countdown_ctx_fields)
  have spw: "unat (subgroups_per_workgroup (data ?c)) = 2" by (simp add: countdown_ctx_fields)
  have sp: "has_cbarriers ?c \<noteq> 0 \<longrightarrow> unat (subgroups_per_workgroup (data ?c)) < 2147483648"
    using spw by simp
  have T: "nthreads ?c = 2" by (simp add: countdown_ctx_fields)
  have T0: "0 < nthreads ?c" using T by simp
  have gx: "int_of_uint (num_workgroups (data ?c) 0) = 2"
    unfolding countdown_ctx_fields by (simp add: uint_of_int_def int_of_uint_def)
  have gy: "int_of_uint (num_workgroups (data ?c) 1) = 2"
    unfolding countdown_ctx_fields by (simp add: uint_of_int_def int_of_uint_def)
  have gz: "int_of_uint (num_workgroups (data ?c) 2) = 1"
    unfolding countdown_ctx_fields by (simp add: uint_of_int_def int_of_uint_def)
  obtain th1 h1 where em: "ensure_memory ?c alloc_thread_context (heap_init 4096) = Inr (th1, h1)"
    by (simp add: ensure_memory_def alloc_thread_context_def countdown_ctx_fields
        malloc_align_def posix_memalign_def heap_init_def Let_def)
  have inv: "q_inv (thread_routines alloc_thread_context)"
    by (simp add: alloc_thread_context_def zero_inv)
  have e: "q_list (thread_routines alloc_thread_context) = []"
    by (simp add: alloc_thread_context_def q_list_def coroutines_zero_def)
  have r1: "(0 :: int) \<le> 1" "(0 :: int) \<le> 2" "(2 :: int) * 2 \<le> 2147483647" by simp_all
  have nT: "(2 :: int) * 2 * 1 + nthreads ?c \<le> 2147483648" using T by simp
  note main = dispatch_thread_retires_coroutines[OF fin ep sp T0 r1(1) gx[symmetric] gy[symmetric]
      gz[symmetric] r1(2) r1(2) r1(1) r1(3) nT em inv e, of ?w, THEN conjunct1]
  then obtain q' w' tr where
    r: "dispatch_thread ?c 1 alloc_thread_context (heap_init 4096) ?w
         = Some (Inr (th1\<lparr>thread_routines := q'\<rparr>, h1, w', tr))"
      "start q' = endq q'" "q_list q' = []"
      "map fst (groups_of tr) = thread_indices (nthreads ?c) (2 * 2 * 1) 1"
      "replay ?c tr ?w = Some w'" "live_after tr {#} = Some {#}" by blast
  from countdown_run r(1) have v: "start q' = 6" "endq q' = 6" "fst w' = 4" "snd (snd w') = []"
    "tr = ?tr" by simp_all
  have ti: "thread_indices 2 (2 * 2 * 1) 1 = [1, 3]"
    using r(4) unfolding v(5) T by (simp add: groups_of_def)
  show ?thesis
    using fin ep cb spw T gx gy gz em inv e r(1,3,5,6) v ti unfolding v(5) by blast
qed

text \<open>
  C8. Before it calls any entry point, \<^verbatim>\<open>dispatch_thread\<close> makes the scratch memory of the
  thread context large enough (\<open>ensure_memory\<close>). For a thread context whose scratch memory
  satisfies \<open>thread_inv\<close> and a call that returns: the buffer of the returned thread
  context is the one \<open>ensure_memory\<close> left, and every \<^verbatim>\<open>begin\<close> of the call was passed it; it
  is 16-byte aligned and, unless \<^verbatim>\<open>memory_size\<close> is 0, a live block of at least
  \<^verbatim>\<open>memory_size\<close> bytes; the recorded size is at least \<^verbatim>\<open>memory_size\<close> and not below the
  one before the call; buffer, recorded size and heap are the ones before the call unless
  \<^verbatim>\<open>memory_size\<close> exceeds the recorded size, and then the recorded size is \<^verbatim>\<open>memory_size\<close>.
  \<open>thread_inv\<close> holds again, so all this holds of the next call on the same thread context.
  \<open>ensure_memory\<close> returns when the buffer is large enough, and when the allocation of the
  larger buffer succeeds.
\<close>

theorem dispatch_thread_scratch_memory:
  fixes ctx :: "'w dispatch_context"
  assumes inv: "thread_inv thread h"
    and run: "dispatch_thread ctx t thread h w = Some (Inr (thread', h', w', tr))"
  shows "ensure_memory ctx thread h = Inr (thread'\<lparr>thread_routines := thread_routines thread\<rparr>, h') \<and>
     set (begin_mems tr) \<subseteq> {thread_memory thread'} \<and>
     thread_inv thread' h' \<and>
     memory_size ctx \<le> thread_memory_size thread' \<and>
     16 dvd thread_memory thread' \<and>
     (memory_size ctx \<noteq> 0 \<longrightarrow>
        (\<exists>b. blocks h' (thread_memory thread') = Some b \<and> unat (memory_size ctx) \<le> length b)) \<and>
     thread_memory_size thread \<le> thread_memory_size thread' \<and>
     (if thread_memory_size thread < memory_size ctx
      then thread_memory_size thread' = memory_size ctx
      else thread_memory thread' = thread_memory thread \<and>
           thread_memory_size thread' = thread_memory_size thread \<and> h' = h) \<and>
     (memory_size ctx \<le> thread_memory_size thread \<longrightarrow>
        ensure_memory ctx thread h = Inr (thread, h)) \<and>
     (thread_memory_size thread < memory_size ctx \<and>
      fst (posix_memalign
        (if thread_memory thread \<noteq> NULL
         then h\<lparr>blocks := (blocks h)(thread_memory thread := None)\<rparr> else h)
        16 (unat (memory_size ctx))) = 0 \<longrightarrow>
        (\<exists>p h1 b. ensure_memory ctx thread h
           = Inr (thread\<lparr>thread_memory := p, thread_memory_size := memory_size ctx\<rparr>, h1) \<and>
         16 dvd p \<and> blocks h1 p = Some b \<and> length b = unat (memory_size ctx)))"
proof -
  from dispatch_thread_Inr[OF run] obtain thread1 where
    em: "ensure_memory ctx thread h = Inr (thread1, h')"
    and t': "thread' = thread1\<lparr>thread_routines := thread_routines thread'\<rparr>"
    and bm: "set (begin_mems tr) \<subseteq> {thread_memory thread1}" by blast
  note e = ensure_memory_Inr[OF inv em]
  have f: "thread_memory thread' = thread_memory thread1"
    "thread_memory_size thread' = thread_memory_size thread1"
    by (subst t', simp)+
  have t1: "thread1 = thread'\<lparr>thread_routines := thread_routines thread\<rparr>"
    using e(5) by (subst t') simp
  have 1: "ensure_memory ctx thread h = Inr (thread'\<lparr>thread_routines := thread_routines thread\<rparr>, h')"
    using em t1 by simp
  have 2: "set (begin_mems tr) \<subseteq> {thread_memory thread'}" using bm f by simp
  have 3: "thread_inv thread' h'" using e(1) unfolding thread_inv_def f .
  have 4: "memory_size ctx \<le> thread_memory_size thread'" using e(2) f by simp
  have 5: "16 dvd thread_memory thread'" using e(6) f by simp
  have 6: "memory_size ctx \<noteq> 0 \<longrightarrow>
        (\<exists>b. blocks h' (thread_memory thread') = Some b \<and> unat (memory_size ctx) \<le> length b)"
    using e(7) f by simp
  have 7: "thread_memory_size thread \<le> thread_memory_size thread'" using e(3) f by simp
  have 8: "if thread_memory_size thread < memory_size ctx
      then thread_memory_size thread' = memory_size ctx
      else thread_memory thread' = thread_memory thread \<and>
           thread_memory_size thread' = thread_memory_size thread \<and> h' = h"
  proof (cases "thread_memory_size thread < memory_size ctx")
    case True
    then have "thread_memory_size thread1 = memory_size ctx"
      using em by (auto simp: ensure_memory_def split: sum.splits if_splits)
    then show ?thesis using True f by simp
  next
    case False
    then have "thread1 = thread" "h' = h" using em by (simp_all add: ensure_memory_def)
    then show ?thesis using False f by simp
  qed
  have 9: "memory_size ctx \<le> thread_memory_size thread \<longrightarrow>
        ensure_memory ctx thread h = Inr (thread, h)"
    using ensure_memory_keep by blast
  have 10: "thread_memory_size thread < memory_size ctx \<and>
      fst (posix_memalign
        (if thread_memory thread \<noteq> NULL
         then h\<lparr>blocks := (blocks h)(thread_memory thread := None)\<rparr> else h)
        16 (unat (memory_size ctx))) = 0 \<longrightarrow>
        (\<exists>p h1 b. ensure_memory ctx thread h
           = Inr (thread\<lparr>thread_memory := p, thread_memory_size := memory_size ctx\<rparr>, h1) \<and>
         16 dvd p \<and> blocks h1 p = Some b \<and> length b = unat (memory_size ctx))"
    using ensure_memory_grow[OF inv] by blast
  show ?thesis using 1 2 3 4 5 6 7 8 9 10 by (intro conjI)
qed

text \<open>
  Two calls on a fresh thread context with a program that needs 64 bytes: the first
  allocates the buffer at 16, the second keeps buffer and heap.
\<close>

theorem dispatch_thread_scratch_memory_witness:
  "\<exists>th1 h1 w1 tr1 th2 h2 w2 tr2.
     thread_inv alloc_thread_context (heap_init 4096) \<and>
     thread_memory_size alloc_thread_context = 0 \<and>
     memory_size (countdown_ctx 0 1 1 1 1) = 64 \<and>
     dispatch_thread (countdown_ctx 0 1 1 1 1) 0 alloc_thread_context (heap_init 4096)
       (0, \<lambda>r. 0, []) = Some (Inr (th1, h1, w1, tr1)) \<and>
     thread_memory th1 = 16 \<and> thread_memory_size th1 = 64 \<and>
     (\<exists>b. blocks h1 16 = Some b \<and> 64 \<le> length b) \<and>
     begin_mems tr1 = [16] \<and>
     thread_inv th1 h1 \<and>
     dispatch_thread (countdown_ctx 0 1 1 1 1) 0 th1 h1 w1 = Some (Inr (th2, h2, w2, tr2)) \<and>
     thread_memory th2 = 16 \<and> thread_memory_size th2 = 64 \<and> h2 = h1 \<and>
     begin_mems tr2 = [16]"
proof -
  let ?c = "countdown_ctx 0 1 1 1 1"
  let ?w = "(0 :: nat, \<lambda>r :: nat. 0 :: nat, [] :: nat list)"
  have fin: "finishing ?c countdown_left" by (rule countdown_finishing)
  have ep: "has_entry_points ?c" by (rule countdown_entry_points)
  have sp: "has_cbarriers ?c \<noteq> 0 \<longrightarrow> unat (subgroups_per_workgroup (data ?c)) < 2147483648"
    by (simp add: countdown_ctx_fields)
  have spw: "unat (subgroups_per_workgroup (data ?c)) < 2147483648"
    by (simp add: countdown_ctx_fields)
  have T: "nthreads ?c = 1" by (simp add: countdown_ctx_fields)
  have T0: "0 < nthreads ?c" using T by simp
  have ms: "memory_size ?c = 64" by (simp add: countdown_ctx_fields)
  have gx: "int_of_uint (num_workgroups (data ?c) 0) = 1"
    unfolding countdown_ctx_fields by (simp add: uint_of_int_def int_of_uint_def)
  have gy: "int_of_uint (num_workgroups (data ?c) 1) = 1"
    unfolding countdown_ctx_fields by (simp add: uint_of_int_def int_of_uint_def)
  have gz: "int_of_uint (num_workgroups (data ?c) 2) = 1"
    unfolding countdown_ctx_fields by (simp add: uint_of_int_def int_of_uint_def)
  have r1: "(0 :: int) \<le> 0" "(0 :: int) \<le> 1" "(1 :: int) * 1 \<le> 2147483647" by simp_all
  have nT: "(1 :: int) * 1 * 1 + nthreads ?c \<le> 2147483648" using T by simp
  have ti: "thread_indices (nthreads ?c) (1 * 1 * 1) 0 = [0]"
    unfolding T by (simp add: thread_indices_def)
  have gb: "concat (map (\<lambda>j. group_begins ?c (coords_of 1 1 j)) [0]) = [(0, 0, 0, 0, 2)]"
    by (simp add: group_begins_def coords_of_def countdown_ctx_fields)
  have a: "thread_inv alloc_thread_context (heap_init 4096)"
    by (simp add: thread_inv_def alloc_thread_context_def)
  have z: "thread_memory_size alloc_thread_context = 0" by (simp add: alloc_thread_context_def)
  define th0 where "th0 = \<lparr>thread_routines = coroutines_zero, thread_memory_size = 64, thread_memory = 16\<rparr>"
  define h1 where "h1 = \<lparr>blocks = [16 \<mapsto> replicate 64 (0 :: 8 word)], brk = 80, limit = 4096\<rparr>"
  have em: "ensure_memory ?c alloc_thread_context (heap_init 4096) = Inr (th0, h1)"
    by (simp add: ensure_memory_def alloc_thread_context_def ms th0_def h1_def
        malloc_align_def posix_memalign_def heap_init_def Let_def)
  have inv: "q_inv (thread_routines alloc_thread_context)"
    by (simp add: alloc_thread_context_def zero_inv)
  have e: "q_list (thread_routines alloc_thread_context) = []"
    by (simp add: alloc_thread_context_def q_list_def coroutines_zero_def)
  from dispatch_thread_total[OF fin ep sp T0 r1(1) gx[symmetric] gy[symmetric] gz[symmetric]
      r1(2) r1(2) r1(2) r1(3) nT em inv e, of ?w] spw
  obtain q1 w1 tr1 where
    c1: "dispatch_thread ?c 0 alloc_thread_context (heap_init 4096) ?w
         = Some (Inr (th0\<lparr>thread_routines := q1\<rparr>, h1, w1, tr1))"
      "q_inv q1" "q_list q1 = []"
      "begin_calls tr1 = concat (map (\<lambda>j. group_begins ?c (coords_of 1 1 j))
            (thread_indices (nthreads ?c) (1 * 1 * 1) 0))" by blast
  define th1 where "th1 = th0\<lparr>thread_routines := q1\<rparr>"
  note m1 = dispatch_thread_scratch_memory[OF a c1(1)[folded th1_def]]
  have f1: "thread_memory th1 = 16" "thread_memory_size th1 = 64"
    by (simp_all add: th1_def th0_def)
  have b1: "\<exists>b. blocks h1 16 = Some b \<and> 64 \<le> length b" by (simp add: h1_def)
  have s1: "set (begin_mems tr1) \<subseteq> {16}" using m1 f1 by simp
  have l1: "length (begin_mems tr1) = 1"
    using c1(4) unfolding ti gb by (simp add: begin_mems_length)
  have bm1: "begin_mems tr1 = [16]"
    using s1 l1 by (cases "begin_mems tr1") auto
  have i1: "thread_inv th1 h1" using m1 by simp
  have em2: "ensure_memory ?c th1 h1 = Inr (th1, h1)"
    by (rule ensure_memory_keep) (simp add: ms f1)
  have inv2: "q_inv (thread_routines th1)" "q_list (thread_routines th1) = []"
    using c1(2,3) by (simp_all add: th1_def)
  from dispatch_thread_total[OF fin ep sp T0 r1(1) gx[symmetric] gy[symmetric] gz[symmetric]
      r1(2) r1(2) r1(2) r1(3) nT em2 inv2, of w1] spw
  obtain q2 w2 tr2 where
    c2: "dispatch_thread ?c 0 th1 h1 w1 = Some (Inr (th1\<lparr>thread_routines := q2\<rparr>, h1, w2, tr2))"
      "begin_calls tr2 = concat (map (\<lambda>j. group_begins ?c (coords_of 1 1 j))
            (thread_indices (nthreads ?c) (1 * 1 * 1) 0))" by blast
  define th2 where "th2 = th1\<lparr>thread_routines := q2\<rparr>"
  note m2 = dispatch_thread_scratch_memory[OF i1 c2(1)[folded th2_def]]
  have f2: "thread_memory th2 = 16" "thread_memory_size th2 = 64"
    by (simp_all add: th2_def f1)
  have s2: "set (begin_mems tr2) \<subseteq> {16}" using m2 f2 by simp
  have l2: "length (begin_mems tr2) = 1"
    using c2(2) unfolding ti gb by (simp add: begin_mems_length)
  have bm2: "begin_mems tr2 = [16]"
    using s2 l2 by (cases "begin_mems tr2") auto
  show ?thesis
    using a z ms c1(1)[folded th1_def] f1 b1 bm1 i1 c2(1)[folded th2_def] f2 bm2 by blast
qed

text \<open>
  C5, amended. Let the grid sizes \<open>sx\<close>, \<open>sy\<close>, \<open>sz\<close> as \<^verbatim>\<open>dispatch_thread\<close> reads them be
  non-negative with \<open>sx * sy \<le> 2 ^ 31 - 1\<close> and \<open>sx * sy * sz + T \<le> 2 ^ 31\<close>, \<open>T \<ge> 1\<close> the
  thread count and \<open>0 \<le> t < T\<close> (and let the coroutines finish, the queue of the thread
  context be empty and its scratch memory be there). Then \<^verbatim>\<open>dispatch_thread\<close> with thread
  index \<open>t\<close> returns, and the workgroups it started are, in this order, the indices
  \<open>t, t + T, t + 2 T, ...\<close> below \<open>sx * sy * sz\<close> (strictly increasing, and exactly the
  \<open>i\<close> in \<open>[0, sx * sy * sz)\<close> with \<open>i mod T = t\<close>), each with the coordinates
  \<open>x = i mod sx\<close>, \<open>y = (i div sx) mod sy\<close>, \<open>z = i div (sx * sy)\<close>, for which
  \<open>x + sx * y + sx * sy * z = i\<close>, \<open>0 \<le> x < sx\<close>, \<open>0 \<le> y < sy\<close> and \<open>0 \<le> z < sz\<close>. The index
  sets of two different threads are disjoint, and the union over all \<open>T\<close> threads is
  \<open>[0, sx * sy * sz)\<close>.
\<close>

theorem dispatch_thread_partition:
  fixes ctx :: "'w dispatch_context"
  assumes fin: "finishing ctx left" and ep: "has_entry_points ctx"
    and sp: "has_cbarriers ctx \<noteq> 0 \<longrightarrow> unat (subgroups_per_workgroup (data ctx)) < 2147483648"
    and T: "0 < nthreads ctx" and t: "0 \<le> t" "t < nthreads ctx"
    and gx: "sx = int_of_uint (num_workgroups (data ctx) 0)"
    and gy: "sy = int_of_uint (num_workgroups (data ctx) 1)"
    and gz: "sz = int_of_uint (num_workgroups (data ctx) 2)"
    and sx: "0 \<le> sx" and sy: "0 \<le> sy" and sz: "0 \<le> sz" and xy: "sx * sy \<le> 2147483647"
    and nT: "sx * sy * sz + nthreads ctx \<le> 2147483648"
    and em: "ensure_memory ctx thread h = Inr (thread1, h1)"
    and inv: "q_inv (thread_routines thread)" and e: "q_list (thread_routines thread) = []"
  shows "(\<exists>q' w' tr.
       dispatch_thread ctx t thread h w
         = Some (Inr (thread1\<lparr>thread_routines := q'\<rparr>, h1, w', tr)) \<and>
       groups_of tr = map (coords_of sx sy) (thread_indices (nthreads ctx) (sx * sy * sz) t)) \<and>
     sorted_wrt (<) (thread_indices (nthreads ctx) (sx * sy * sz) t) \<and>
     set (thread_indices (nthreads ctx) (sx * sy * sz) t)
       = {i. 0 \<le> i \<and> i < sx * sy * sz \<and> i mod nthreads ctx = t} \<and>
     (\<forall>i. 0 \<le> i \<and> i < sx * sy * sz \<longrightarrow>
        coords_of sx sy i = (i, i mod sx, (i div sx) mod sy, i div (sx * sy)) \<and>
        i mod sx + sx * ((i div sx) mod sy) + sx * sy * (i div (sx * sy)) = i \<and>
        0 \<le> i mod sx \<and> i mod sx < sx \<and>
        0 \<le> (i div sx) mod sy \<and> (i div sx) mod sy < sy \<and>
        0 \<le> i div (sx * sy) \<and> i div (sx * sy) < sz) \<and>
     (\<forall>t1 t2. 0 \<le> t1 \<and> t1 < nthreads ctx \<and> 0 \<le> t2 \<and> t2 < nthreads ctx \<and> t1 \<noteq> t2 \<longrightarrow>
        set (thread_indices (nthreads ctx) (sx * sy * sz) t1) \<inter>
        set (thread_indices (nthreads ctx) (sx * sy * sz) t2) = {}) \<and>
     (\<Union>t' \<in> {0..<nthreads ctx}. set (thread_indices (nthreads ctx) (sx * sy * sz) t'))
       = {0..<sx * sy * sz}"
proof (intro conjI allI impI)
  let ?T = "nthreads ctx"
  let ?N = "sx * sy * sz"
  from dispatch_thread_total[OF fin ep sp T t(1) gx gy gz sx sy sz xy nT em inv e, of w]
  show "\<exists>q' w' tr.
       dispatch_thread ctx t thread h w
         = Some (Inr (thread1\<lparr>thread_routines := q'\<rparr>, h1, w', tr)) \<and>
       groups_of tr = map (coords_of sx sy) (thread_indices ?T ?N t)" by blast
  show "sorted_wrt (<) (thread_indices ?T ?N t)" by (rule thread_indices_sorted)
  show "set (thread_indices ?T ?N t) = {i. 0 \<le> i \<and> i < ?N \<and> i mod ?T = t}"
    using thread_indices_member[OF T t] by blast
  show "(\<Union>t' \<in> {0..<?T}. set (thread_indices ?T ?N t')) = {0..<?N}"
  proof (rule set_eqI)
    fix i
    show "i \<in> (\<Union>t' \<in> {0..<?T}. set (thread_indices ?T ?N t')) \<longleftrightarrow> i \<in> {0..<?N}"
    proof
      assume "i \<in> (\<Union>t' \<in> {0..<?T}. set (thread_indices ?T ?N t'))"
      then obtain t' where "0 \<le> t'" "t' < ?T" "i \<in> set (thread_indices ?T ?N t')" by auto
      then show "i \<in> {0..<?N}" using thread_indices_member[OF T, of t' i ?N] by simp
    next
      assume a: "i \<in> {0..<?N}"
      have m: "0 \<le> i mod ?T" "i mod ?T < ?T" using T by simp_all
      have "i \<in> set (thread_indices ?T ?N (i mod ?T))"
        using thread_indices_member[OF T m, of i ?N] a by simp
      then show "i \<in> (\<Union>t' \<in> {0..<?T}. set (thread_indices ?T ?N t'))" using m by auto
    qed
  qed
next
  fix t1 t2
  assume a: "0 \<le> t1 \<and> t1 < nthreads ctx \<and> 0 \<le> t2 \<and> t2 < nthreads ctx \<and> t1 \<noteq> t2"
  have "\<And>i. i \<in> set (thread_indices (nthreads ctx) (sx * sy * sz) t1) \<Longrightarrow>
      i \<in> set (thread_indices (nthreads ctx) (sx * sy * sz) t2) \<Longrightarrow> False"
    using a thread_indices_member[OF T, of t1] thread_indices_member[OF T, of t2] by auto
  then show "set (thread_indices (nthreads ctx) (sx * sy * sz) t1) \<inter>
        set (thread_indices (nthreads ctx) (sx * sy * sz) t2) = {}" by blast
next
  fix i
  assume a: "0 \<le> i \<and> i < sx * sy * sz"
  then have "sx * sy * sz \<noteq> 0" by auto
  then have p: "0 < sx" "0 < sy" using sx sy by auto
  note c = coords_of_range[OF p, of i sz]
  show "coords_of sx sy i = (i, i mod sx, (i div sx) mod sy, i div (sx * sy))"
    by (simp add: coords_of_def)
  show "i mod sx + sx * ((i div sx) mod sy) + sx * sy * (i div (sx * sy)) = i" using c(1) a by simp
  show "0 \<le> i mod sx" using c(2) a by simp
  show "i mod sx < sx" using c(3) a by simp
  show "0 \<le> (i div sx) mod sy" using c(4) a by simp
  show "(i div sx) mod sy < sy" using c(5) a by simp
  show "0 \<le> i div (sx * sy)" using c(6) a by simp
  show "i div (sx * sy) < sz" using c(7) a by simp
qed

text \<open>Thread 1 of 2 on a \<open>2 \<times> 2 \<times> 1\<close> grid runs the workgroups 1 and 3.\<close>

theorem dispatch_thread_partition_witness:
  "\<exists>th1 h1 q' w' tr.
     finishing (countdown_ctx 1 2 2 2 1) countdown_left \<and>
     has_entry_points (countdown_ctx 1 2 2 2 1) \<and>
     has_cbarriers (countdown_ctx 1 2 2 2 1) \<noteq> 0 \<and>
     unat (subgroups_per_workgroup (data (countdown_ctx 1 2 2 2 1))) = 2 \<and>
     nthreads (countdown_ctx 1 2 2 2 1) = 2 \<and>
     int_of_uint (num_workgroups (data (countdown_ctx 1 2 2 2 1)) 0) = 2 \<and>
     int_of_uint (num_workgroups (data (countdown_ctx 1 2 2 2 1)) 1) = 2 \<and>
     int_of_uint (num_workgroups (data (countdown_ctx 1 2 2 2 1)) 2) = 1 \<and>
     ensure_memory (countdown_ctx 1 2 2 2 1) alloc_thread_context (heap_init 4096) = Inr (th1, h1) \<and>
     q_inv (thread_routines alloc_thread_context) \<and>
     q_list (thread_routines alloc_thread_context) = [] \<and>
     dispatch_thread (countdown_ctx 1 2 2 2 1) 1 alloc_thread_context (heap_init 4096)
        (0, \<lambda>r. 0, []) = Some (Inr (th1\<lparr>thread_routines := q'\<rparr>, h1, w', tr)) \<and>
     groups_of tr = [(1, 1, 0, 0), (3, 1, 1, 0)] \<and>
     thread_indices 2 (2 * 2 * 1) 0 = [0, 2] \<and>
     thread_indices 2 (2 * 2 * 1) 1 = [1, 3] \<and>
     coords_of 2 2 3 = (3, 1, 1, 0)"
proof -
  let ?c = "countdown_ctx 1 2 2 2 1"
  let ?w = "(0 :: nat, \<lambda>r :: nat. 0 :: nat, [] :: nat list)"
  have fin: "finishing ?c countdown_left" by (rule countdown_finishing)
  have ep: "has_entry_points ?c" by (rule countdown_entry_points)
  have cb: "has_cbarriers ?c \<noteq> 0" by (simp add: countdown_ctx_fields)
  have spw: "unat (subgroups_per_workgroup (data ?c)) = 2" by (simp add: countdown_ctx_fields)
  have sp: "has_cbarriers ?c \<noteq> 0 \<longrightarrow> unat (subgroups_per_workgroup (data ?c)) < 2147483648"
    using spw by simp
  have T: "nthreads ?c = 2" by (simp add: countdown_ctx_fields)
  have T0: "0 < nthreads ?c" using T by simp
  have t: "(0 :: int) \<le> 1" "1 < nthreads ?c" using T by simp_all
  have gx: "int_of_uint (num_workgroups (data ?c) 0) = 2"
    unfolding countdown_ctx_fields by (simp add: uint_of_int_def int_of_uint_def)
  have gy: "int_of_uint (num_workgroups (data ?c) 1) = 2"
    unfolding countdown_ctx_fields by (simp add: uint_of_int_def int_of_uint_def)
  have gz: "int_of_uint (num_workgroups (data ?c) 2) = 1"
    unfolding countdown_ctx_fields by (simp add: uint_of_int_def int_of_uint_def)
  obtain th1 h1 where em: "ensure_memory ?c alloc_thread_context (heap_init 4096) = Inr (th1, h1)"
    by (simp add: ensure_memory_def alloc_thread_context_def countdown_ctx_fields
        malloc_align_def posix_memalign_def heap_init_def Let_def)
  have inv: "q_inv (thread_routines alloc_thread_context)"
    by (simp add: alloc_thread_context_def zero_inv)
  have e: "q_list (thread_routines alloc_thread_context) = []"
    by (simp add: alloc_thread_context_def q_list_def coroutines_zero_def)
  have r1: "(0 :: int) \<le> 1" "(0 :: int) \<le> 2" "(2 :: int) * 2 \<le> 2147483647" by simp_all
  have nT: "(2 :: int) * 2 * 1 + nthreads ?c \<le> 2147483648" using T by simp
  note main = dispatch_thread_partition[OF fin ep sp T0 t gx[symmetric] gy[symmetric]
      gz[symmetric] r1(2) r1(2) r1(1) r1(3) nT em inv e, of ?w, THEN conjunct1]
  then obtain q' w' tr where
    r: "dispatch_thread ?c 1 alloc_thread_context (heap_init 4096) ?w
         = Some (Inr (th1\<lparr>thread_routines := q'\<rparr>, h1, w', tr))"
      "groups_of tr = map (coords_of 2 2) (thread_indices (nthreads ?c) (2 * 2 * 1) 1)" by blast
  have i0: "thread_indices 2 (2 * 2 * 1) 0 = [0, 2]" by code_simp
  have i1: "thread_indices 2 (2 * 2 * 1) 1 = [1, 3]" by code_simp
  have c3: "coords_of 2 2 3 = (3, 1, 1, 0)" by (simp add: coords_of_def)
  have g: "groups_of tr = [(1, 1, 0, 0), (3, 1, 1, 0)]"
    using r(2) unfolding T i1 by (simp add: coords_of_def)
  show ?thesis using fin ep cb spw T gx gy gz em inv e r(1) g i0 i1 c3 by blast
qed

text \<open>
  C5 as stated fails for the grid \<open>(4294967294, 4294967293, 1)\<close>: \<^verbatim>\<open>dispatch_thread\<close> reads
  the \<^verbatim>\<open>uint32_t\<close> sizes into \<^verbatim>\<open>int\<close> variables as \<open>- 2\<close> and \<open>- 3\<close>, runs six
  workgroups and gives the index 2 the coordinates \<open>(0, - 1, 0)\<close>, where the claim has
  \<open>(2, 0, 0)\<close> and also the index 6.
\<close>

theorem dispatch_thread_grid_counterexample:
  "num_workgroups (data (countdown_ctx 0 1 (- 2) (- 3) 1)) 0 = 4294967294 \<and>
   num_workgroups (data (countdown_ctx 0 1 (- 2) (- 3) 1)) 1 = 4294967293 \<and>
   num_workgroups (data (countdown_ctx 0 1 (- 2) (- 3) 1)) 2 = 1 \<and>
   nthreads (countdown_ctx 0 1 (- 2) (- 3) 1) = 1 \<and>
   map_option (map_sum id (\<lambda>(th, h, w, tr). groups_of tr))
     (dispatch_thread (countdown_ctx 0 1 (- 2) (- 3) 1) 0 alloc_thread_context (heap_init 4096)
        (0, \<lambda>r. 0, [])) =
   Some (Inr [(0, 0, 0, 0), (1, 1, 0, 0), (2, 0, - 1, 0), (3, 1, - 1, 0), (4, 0, - 2, 0),
     (5, 1, - 2, 0)]) \<and>
   coords_of 4294967294 4294967293 2 = (2, 2, 0, 0) \<and>
   6 \<in> set (thread_indices 1 (4294967294 * 4294967293 * 1) 0)"
proof -
  let ?c = "countdown_ctx 0 1 (- 2) (- 3) 1"
  have a: "num_workgroups (data ?c) 0 = 4294967294" "num_workgroups (data ?c) 1 = 4294967293"
    "num_workgroups (data ?c) 2 = 1"
    unfolding countdown_ctx_fields by (simp_all add: uint_of_int_def)
  have b: "nthreads ?c = 1" by (simp add: countdown_ctx_fields)
  have c: "coords_of 4294967294 4294967293 2 = (2, 2, 0, 0)" by (simp add: coords_of_def)
  have d: "6 \<in> set (thread_indices 1 (4294967294 * 4294967293 * 1) 0)"
    by (subst thread_indices_member) simp_all
  show ?thesis using a b c d countdown_run_negative by (intro conjI)
qed

text \<open>
  C2, amended. Let \<^verbatim>\<open>prepare_dispatch\<close> return for a program whose workgroup sizes have a
  non-negative product \<open>ipw\<close> and a grid \<open>(gx, gy, gz)\<close> of non-negative \<^verbatim>\<open>int\<close> with
  \<open>gx * gy \<le> 2 ^ 31 - 1\<close> and \<open>gx * gy * gz + T \<le> 2 ^ 31\<close>, \<open>T \<ge> 1\<close> threads (and let the
  coroutines finish and every thread \<open>t\<close> have a thread context with an empty queue and its
  scratch memory). Then \<^verbatim>\<open>subgroups_per_workgroup\<close> is \<open>\<lceil>ipw / 4\<rceil>\<close>, every
  \<^verbatim>\<open>dispatch_thread\<close> returns, and the calls of \<^verbatim>\<open>begin\<close> of all threads together are: without
  control barriers one call \<open>(x, y, z, 0, subgroups_per_workgroup)\<close> for every workgroup,
  \<open>gx * gy * gz\<close> calls; with control barriers one call \<open>(x, y, z, s, 1)\<close> for every
  workgroup and every subgroup \<open>s\<close> below \<^verbatim>\<open>subgroups_per_workgroup\<close>,
  \<open>gx * gy * gz * subgroups_per_workgroup\<close> calls.
\<close>

theorem dispatch_begin_calls:
  fixes ctx :: "'w dispatch_context" and th :: "int \<Rightarrow> thread_context"
    and hs :: "int \<Rightarrow> heap" and ws :: "int \<Rightarrow> 'w"
  assumes prep: "prepare_dispatch ctx0 h0 T info ds gx gy gz = Inr (ctx, hp)"
    and fin: "finishing ctx left" and ep: "has_entry_points ctx"
    and ipw: "ipw = workgroup_size_x info * workgroup_size_y info * workgroup_size_z info"
    and ipw0: "0 \<le> ipw"
    and T: "0 < T"
    and gx: "0 \<le> gx" "gx \<le> 2147483647" and gy: "0 \<le> gy" "gy \<le> 2147483647"
    and gz: "0 \<le> gz" "gz \<le> 2147483647"
    and xy: "gx * gy \<le> 2147483647" and nT: "gx * gy * gz + T \<le> 2147483648"
    and thr: "\<forall>t. 0 \<le> t \<and> t < T \<longrightarrow>
        (\<exists>t1 h1. ensure_memory ctx (th t) (hs t) = Inr (t1, h1)) \<and>
        q_inv (thread_routines (th t)) \<and> q_list (thread_routines (th t)) = []"
  shows "int (unat (subgroups_per_workgroup (data ctx))) = \<lceil>real_of_int ipw / 4\<rceil> \<and>
     has_cbarriers ctx = info_has_cbarriers info \<and>
     (\<forall>t. 0 \<le> t \<and> t < T \<longrightarrow>
        (\<exists>r. dispatch_thread ctx t (th t) (hs t) (ws t) = Some (Inr r))) \<and>
     (\<Sum>t\<in>{0..<T}. mset (begin_calls (trace_of (dispatch_thread ctx t (th t) (hs t) (ws t)))))
       = (if has_cbarriers ctx = 0
          then mset (map (\<lambda>i. (i mod gx, (i div gx) mod gy, i div (gx * gy), 0,
                                \<lceil>real_of_int ipw / 4\<rceil>)) [0..gx * gy * gz - 1])
          else mset (concat (map (\<lambda>i. map (\<lambda>s. (i mod gx, (i div gx) mod gy, i div (gx * gy), s, 1))
                                    [0..\<lceil>real_of_int ipw / 4\<rceil> - 1]) [0..gx * gy * gz - 1]))) \<and>
     size (\<Sum>t\<in>{0..<T}.
             mset (begin_calls (trace_of (dispatch_thread ctx t (th t) (hs t) (ws t)))))
       = (if has_cbarriers ctx = 0 then nat (gx * gy * gz)
          else nat (gx * gy * gz * \<lceil>real_of_int ipw / 4\<rceil>))"
proof -
  let ?N = "gx * gy * gz"
  let ?k = "\<lceil>real_of_int ipw / 4\<rceil>"
  from prep obtain ctx1 :: "'w dispatch_context" and h1 ipw' spw where
    sc: "subgroup_counts info = Inr (ipw', spw)"
    and cb: "has_cbarriers ctx = info_has_cbarriers info"
    and nt: "nthreads ctx = T"
    and d: "data ctx = (data ctx1)
        \<lparr>workgroup_size := (workgroup_size (data ctx1))
           (0 := uint_of_int (workgroup_size_x info),
            1 := uint_of_int (workgroup_size_y info),
            2 := uint_of_int (workgroup_size_z info)),
         num_workgroups := (num_workgroups (data ctx1))
           (0 := uint_of_int gx, 1 := uint_of_int gy, 2 := uint_of_int gz),
         invocations_per_subgroup := uint_of_int SIMD_WIDTH,
         invocations_per_workgroup := uint_of_int ipw',
         subgroups_per_workgroup := uint_of_int spw,
         descriptor_sets := (descriptor_sets (data ctx1))(0 := descriptor_set ctx1)\<rparr>"
    by (rule prepare_dispatch_Inr)
  note s = subgroup_counts_Inr[OF sc]
  have i': "ipw' = ipw" using s(1) ipw by simp
  have k: "spw = ?k" using s(3) ipw0 i' by (simp add: ceiling_quarter)
  have kr: "0 \<le> spw" "spw \<le> 2147483647"
    using s(2,3) ipw0 i' by (simp_all add: in_int_iff)
  have w: "subgroups_per_workgroup (data ctx) = uint_of_int spw" by (simp add: d)
  note ur = uint_roundtrip[OF kr]
  have 1: "int (unat (subgroups_per_workgroup (data ctx))) = ?k" using ur(2) w k by simp
  have spw: "unat (subgroups_per_workgroup (data ctx)) < 2147483648" using ur(3) w by simp
  then have sp: "has_cbarriers ctx \<noteq> 0 \<longrightarrow> unat (subgroups_per_workgroup (data ctx)) < 2147483648"
    by simp
  let ?F = "\<lambda>j. group_begins ctx (coords_of gx gy j)"
  have nx: "gx = int_of_uint (num_workgroups (data ctx) 0)"
    using uint_roundtrip(1)[OF gx] by (simp add: d)
  have ny: "gy = int_of_uint (num_workgroups (data ctx) 1)"
    using uint_roundtrip(1)[OF gy] by (simp add: d)
  have nz: "gz = int_of_uint (num_workgroups (data ctx) 2)"
    using uint_roundtrip(1)[OF gz] by (simp add: d)
  have T': "0 < nthreads ctx" using T nt by simp
  have nT': "gx * gy * gz + nthreads ctx \<le> 2147483648" using nT nt by simp
  have each: "\<exists>r. dispatch_thread ctx t (th t) (hs t) (ws t) = Some (Inr r) \<and>
      begin_calls (trace_of (dispatch_thread ctx t (th t) (hs t) (ws t)))
        = concat (map ?F (thread_indices T ?N t))" if t: "0 \<le> t" "t < T" for t
  proof -
    from thr t obtain t1 h1 where
      em: "ensure_memory ctx (th t) (hs t) = Inr (t1, h1)"
      and inv: "q_inv (thread_routines (th t))" and e: "q_list (thread_routines (th t)) = []"
      by blast
    from dispatch_thread_total[OF fin ep sp T' t(1) nx ny nz gx(1) gy(1) gz(1) xy nT' em inv e,
        of "ws t"] spw
    obtain q' w' tr where
      r: "dispatch_thread ctx t (th t) (hs t) (ws t)
           = Some (Inr (t1\<lparr>thread_routines := q'\<rparr>, h1, w', tr))"
        "begin_calls tr = concat (map ?F (thread_indices (nthreads ctx) ?N t))" by blast
    have "trace_of (dispatch_thread ctx t (th t) (hs t) (ws t)) = tr"
      unfolding r(1) by (simp add: trace_of_def)
    then show ?thesis using r nt by simp
  qed
  have 3: "\<forall>t. 0 \<le> t \<and> t < T \<longrightarrow>
        (\<exists>r. dispatch_thread ctx t (th t) (hs t) (ws t) = Some (Inr r))"
    using each by blast
  have "(\<Sum>t\<in>{0..<T}. mset (begin_calls (trace_of (dispatch_thread ctx t (th t) (hs t) (ws t)))))
      = (\<Sum>t\<in>{0..<T}. mset (concat (map ?F (thread_indices T ?N t))))"
  proof (rule sum.cong[OF refl])
    fix t assume "t \<in> {0..<T}"
    then have "0 \<le> t" "t < T" by simp_all
    from each[OF this] show "mset (begin_calls (trace_of (dispatch_thread ctx t (th t) (hs t) (ws t))))
        = mset (concat (map ?F (thread_indices T ?N t)))" by auto
  qed
  also have "\<dots> = mset (concat (map ?F [0..?N - 1]))" by (rule thread_sum[OF T])
  finally have total: "(\<Sum>t\<in>{0..<T}.
       mset (begin_calls (trace_of (dispatch_thread ctx t (th t) (hs t) (ws t)))))
      = mset (concat (map ?F [0..?N - 1]))" .
  have F0: "concat (map ?F xs)
      = map (\<lambda>i. (i mod gx, (i div gx) mod gy, i div (gx * gy), 0, ?k)) xs"
    if "has_cbarriers ctx = 0" for xs
    using that 1 by (induction xs) (simp_all add: group_begins_def coords_of_def)
  have F1: "concat (map ?F xs)
      = concat (map (\<lambda>i. map (\<lambda>s. (i mod gx, (i div gx) mod gy, i div (gx * gy), s, 1))
                                    [0..?k - 1]) xs)"
    if "has_cbarriers ctx \<noteq> 0" for xs
    using that 1 by (induction xs) (simp_all add: group_begins_def coords_of_def)
  have 4: "(\<Sum>t\<in>{0..<T}. mset (begin_calls (trace_of (dispatch_thread ctx t (th t) (hs t) (ws t)))))
       = (if has_cbarriers ctx = 0
          then mset (map (\<lambda>i. (i mod gx, (i div gx) mod gy, i div (gx * gy), 0, ?k)) [0..?N - 1])
          else mset (concat (map (\<lambda>i. map (\<lambda>s. (i mod gx, (i div gx) mod gy, i div (gx * gy), s, 1))
                                    [0..?k - 1]) [0..?N - 1])))"
    unfolding total using F0 F1 by simp
  have N0: "0 \<le> ?N" using gx(1) gy(1) gz(1) by simp
  have k0: "0 \<le> ?k" using k kr(1) by simp
  have lenN: "length [0..?N - 1] = nat ?N" by simp
  have len1: "length (concat (map (\<lambda>i. map (\<lambda>s. (i mod gx, (i div gx) mod gy, i div (gx * gy), s, 1 :: int))
                                    [0..?k - 1]) xs)) = length xs * nat ?k" for xs :: "int list"
    by (induction xs) simp_all
  have 5: "size (\<Sum>t\<in>{0..<T}.
             mset (begin_calls (trace_of (dispatch_thread ctx t (th t) (hs t) (ws t)))))
       = (if has_cbarriers ctx = 0 then nat ?N else nat (?N * ?k))"
  proof (cases "has_cbarriers ctx = 0")
    case True
    then show ?thesis unfolding 4 using lenN by simp
  next
    case False
    have "nat (?N * ?k) = nat ?N * nat ?k" using N0 by (rule nat_mult_distrib)
    then show ?thesis unfolding 4 using False len1[of "[0..?N - 1]"] lenN by simp
  qed
  show ?thesis using 1 cb 3 4 5 by (intro conjI)
qed

text \<open>
  Two threads on a \<open>2 \<times> 2 \<times> 1\<close> grid of the example program with control barriers and
  workgroups of 8 invocations: 2 subgroups per workgroup, 8 calls of \<^verbatim>\<open>begin\<close>.
\<close>

theorem dispatch_begin_calls_witness:
  "\<exists>hp th1 h1.
     prepare_dispatch alloc_dispatch_context (heap_init 4096) 2 (countdown_info 1) [] 2 2 1
       = Inr (countdown_ctx 1 2 2 2 1, hp) \<and>
     finishing (countdown_ctx 1 2 2 2 1) countdown_left \<and>
     has_entry_points (countdown_ctx 1 2 2 2 1) \<and>
     workgroup_size_x (countdown_info 1) * workgroup_size_y (countdown_info 1)
       * workgroup_size_z (countdown_info 1) = 8 \<and>
     ensure_memory (countdown_ctx 1 2 2 2 1) alloc_thread_context (heap_init 4096) = Inr (th1, h1) \<and>
     q_inv (thread_routines alloc_thread_context) \<and>
     q_list (thread_routines alloc_thread_context) = [] \<and>
     has_cbarriers (countdown_ctx 1 2 2 2 1) = 1 \<and>
     int (unat (subgroups_per_workgroup (data (countdown_ctx 1 2 2 2 1)))) = 2 \<and>
     (\<Sum>t\<in>{0..<2}. mset (begin_calls (trace_of
         (dispatch_thread (countdown_ctx 1 2 2 2 1) t alloc_thread_context (heap_init 4096)
            (0, \<lambda>r. 0, [])))))
       = mset [(0, 0, 0, 0, 1), (0, 0, 0, 1, 1), (1, 0, 0, 0, 1), (1, 0, 0, 1, 1),
               (0, 1, 0, 0, 1), (0, 1, 0, 1, 1), (1, 1, 0, 0, 1), (1, 1, 0, 1, 1)] \<and>
     size (\<Sum>t\<in>{0..<2}. mset (begin_calls (trace_of
         (dispatch_thread (countdown_ctx 1 2 2 2 1) t alloc_thread_context (heap_init 4096)
            (0, \<lambda>r. 0, []))))) = 8"
proof -
  let ?c = "countdown_ctx 1 2 2 2 1"
  let ?w = "(0 :: nat, \<lambda>r :: nat. 0 :: nat, [] :: nat list)"
  obtain hp where prep: "prepare_dispatch alloc_dispatch_context (heap_init 4096) 2
      (countdown_info 1) [] 2 2 1 = Inr (?c, hp)"
    using countdown_prepare by blast
  have fin: "finishing ?c countdown_left" by (rule countdown_finishing)
  have ep: "has_entry_points ?c" by (rule countdown_entry_points)
  have ipw: "(8 :: int) = workgroup_size_x (countdown_info 1) * workgroup_size_y (countdown_info 1)
       * workgroup_size_z (countdown_info 1)" by (simp add: countdown_info_def)
  have cb: "has_cbarriers ?c = 1" by (simp add: countdown_ctx_fields)
  obtain th1 h1 where em: "ensure_memory ?c alloc_thread_context (heap_init 4096) = Inr (th1, h1)"
    by (simp add: ensure_memory_def alloc_thread_context_def countdown_ctx_fields
        malloc_align_def posix_memalign_def heap_init_def Let_def)
  have inv: "q_inv (thread_routines alloc_thread_context)"
    by (simp add: alloc_thread_context_def zero_inv)
  have e: "q_list (thread_routines alloc_thread_context) = []"
    by (simp add: alloc_thread_context_def q_list_def coroutines_zero_def)
  have thr: "\<forall>t :: int. 0 \<le> t \<and> t < 2 \<longrightarrow>
        (\<exists>t1 h1. ensure_memory ?c ((\<lambda>t. alloc_thread_context) t) ((\<lambda>t. heap_init 4096) t)
           = Inr (t1, h1)) \<and>
        q_inv (thread_routines ((\<lambda>t. alloc_thread_context) t)) \<and>
        q_list (thread_routines ((\<lambda>t. alloc_thread_context) t)) = []"
    using em inv e by simp
  have r: "(0 :: int) \<le> 8" "(0 :: int) < 2" "(0 :: int) \<le> 2" "(2 :: int) \<le> 2147483647"
    "(0 :: int) \<le> 1" "(1 :: int) \<le> 2147483647" "(2 :: int) * 2 \<le> 2147483647"
    "(2 :: int) * 2 * 1 + 2 \<le> 2147483648" by simp_all
  note main = dispatch_begin_calls[OF prep fin ep ipw r(1) r(2) r(3) r(4) r(3) r(4) r(5) r(6)
      r(7) r(8) thr, of "\<lambda>t. ?w"]
  have c8: "\<lceil>real_of_int 8 / 4\<rceil> = 2" by simp
  have u: "[0..(2 :: int) * 2 * 1 - 1] = [0, 1, 2, 3]" "[0..(2 :: int) - 1] = [0, 1]" by code_simp+
  have 1: "int (unat (subgroups_per_workgroup (data ?c))) = 2" using main c8 by simp
  have 2: "(\<Sum>t\<in>{0..<2}. mset (begin_calls (trace_of
         (dispatch_thread ?c t alloc_thread_context (heap_init 4096) ?w))))
       = mset [(0, 0, 0, 0, 1), (0, 0, 0, 1, 1), (1, 0, 0, 0, 1), (1, 0, 0, 1, 1),
               (0, 1, 0, 0, 1), (0, 1, 0, 1, 1), (1, 1, 0, 0, 1), (1, 1, 0, 1, 1)]"
    using main[THEN conjunct2, THEN conjunct2, THEN conjunct2, THEN conjunct1]
    unfolding c8 u by (simp add: cb)
  have 3: "size (\<Sum>t\<in>{0..<2}. mset (begin_calls (trace_of
         (dispatch_thread ?c t alloc_thread_context (heap_init 4096) ?w)))) = 8"
    unfolding 2 by simp
  show ?thesis using prep fin ep ipw[symmetric] em inv e cb 1 2 3 by blast
qed

text \<open>
  C2 as stated fails for the grid \<open>(65536, 32768, 1)\<close>: the product \<^verbatim>\<open>sx * sy\<close> overflows
  \<^verbatim>\<open>int\<close>, and \<^verbatim>\<open>begin\<close> is not called once for the \<open>2 ^ 31\<close> workgroups.
\<close>

theorem dispatch_begin_calls_counterexample:
  "has_cbarriers (countdown_ctx 0 1 65536 32768 1) = 0 \<and>
   nthreads (countdown_ctx 0 1 65536 32768 1) = 1 \<and>
   num_workgroups (data (countdown_ctx 0 1 65536 32768 1)) 0 = 65536 \<and>
   num_workgroups (data (countdown_ctx 0 1 65536 32768 1)) 1 = 32768 \<and>
   num_workgroups (data (countdown_ctx 0 1 65536 32768 1)) 2 = 1 \<and>
   dispatch_thread (countdown_ctx 0 1 65536 32768 1) 0 alloc_thread_context (heap_init 4096)
     (0, \<lambda>r. 0, []) = Some (Inl SignedOverflow) \<and>
   begin_calls (trace_of
     (dispatch_thread (countdown_ctx 0 1 65536 32768 1) 0 alloc_thread_context (heap_init 4096)
        (0, \<lambda>r. 0, []))) = [] \<and>
   (65536 :: int) * 32768 * 1 = 2147483648"
proof -
  let ?c = "countdown_ctx 0 1 65536 32768 1"
  have a: "has_cbarriers ?c = 0" "nthreads ?c = 1" by (simp_all add: countdown_ctx_fields)
  have b: "num_workgroups (data ?c) 0 = 65536" "num_workgroups (data ?c) 1 = 32768"
    "num_workgroups (data ?c) 2 = 1"
    unfolding countdown_ctx_fields by (simp_all add: uint_of_int_def)
  have g: "int_of_uint (65536 :: 32 word) = 65536" "int_of_uint (32768 :: 32 word) = 32768"
    by (simp_all add: int_of_uint_def)
  have m: "int_mul 65536 32768 = Inl SignedOverflow"
    by (simp add: int_mul_def int_result_def in_int_iff)
  obtain th1 h1 where em: "ensure_memory ?c alloc_thread_context (heap_init 4096) = Inr (th1, h1)"
    by (simp add: ensure_memory_def alloc_thread_context_def countdown_ctx_fields
        malloc_align_def posix_memalign_def heap_init_def Let_def)
  have d: "dispatch_thread ?c 0 alloc_thread_context (heap_init 4096) (0, \<lambda>r. 0, [])
      = Some (Inl SignedOverflow)"
    unfolding dispatch_thread_def Let_def b g using em m by simp
  have t: "begin_calls (trace_of (dispatch_thread ?c 0 alloc_thread_context (heap_init 4096)
      (0, \<lambda>r. 0, []))) = []"
    unfolding d by (simp add: trace_of_def)
  have p: "(65536 :: int) * 32768 * 1 = 2147483648" by simp
  show ?thesis using a b d t p by (intro conjI)
qed

end
